theory Spec2Isabelle
  imports Complex_Main "HOL-Library.Signed_Division" "HOL-Library.AList"
begin

section \<open>Errors and BigInt arithmetic\<close>

text \<open>
  Both scripts compute with JavaScript \<^verbatim>\<open>BigInt\<close> values, modelled as \<^typ>\<open>int\<close>.
  On BigInt, \<^verbatim>\<open>a / b\<close> truncates towards zero and \<^verbatim>\<open>a % b\<close> takes the sign of
  the dividend: these are \<open>sdiv\<close> and \<open>smod\<close>. Both throw a \<^verbatim>\<open>RangeError\<close> when
  the divisor is \<^verbatim>\<open>0n\<close>, and \<^verbatim>\<open>BigInt(undefined)\<close> throws a \<^verbatim>\<open>TypeError\<close>;
  \<^verbatim>\<open>throw new Error(...)\<close> of the scripts is the third way a function ends without
  a value. The field names of \<^verbatim>\<open>egcdBig\<close>'s result object \<^verbatim>\<open>{g, x, y}\<close> carry the
  prefix \<open>eg_\<close>.
\<close>

datatype error = RangeError | TypeError | Error string

type_synonym 'a result = "error + 'a"

definition bigint_rem :: "int \<Rightarrow> int \<Rightarrow> int result" where
  "bigint_rem a b = (if b = 0 then Inl RangeError else Inr (a smod b))"

subsection \<open>rsa freq script: extended gcd, inverse, power\<close>





text \<open>
  The loop of \<^verbatim>\<open>modPowBig\<close> and \<^verbatim>\<open>modPow\<close>: state \<open>(r, b, e)\<close>, modulus \<open>m\<close>. It is
  entered only after \<^verbatim>\<open>% mod\<close> has succeeded, so \<open>m \<noteq> 0\<close> there. On a non-negative
  BigInt, \<^verbatim>\<open>e & 1n\<close> is the parity and \<^verbatim>\<open>e >>= 1n\<close> halves.
\<close>

function pow_loop :: "int \<Rightarrow> int \<Rightarrow> int \<Rightarrow> int \<Rightarrow> int" where
  "pow_loop m r b e =
     (if e > 0
      then pow_loop m (if e mod 2 = 1 then (r * b) smod m else r) ((b * b) smod m) (e div 2)
      else r)"
  by pat_completeness auto
termination
  by (relation "measure (\<lambda>(m, r, b, e). nat e)") auto

declare pow_loop.simps [simp del]

definition modPowBig :: "int \<Rightarrow> int \<Rightarrow> int \<Rightarrow> int result" where
  "modPowBig base exp' mod' =
     (case bigint_rem base mod' of
        Inl err \<Rightarrow> Inl err
      | Inr b \<Rightarrow> Inr (pow_loop mod' 1 b exp'))"

subsection \<open>rsa attack script: the same three on BigInt arguments\<close>




definition modPow :: "int \<Rightarrow> int \<Rightarrow> int \<Rightarrow> int result" where
  "modPow base exp' mod' =
     (case bigint_rem base mod' of
        Inl err \<Rightarrow> Inl err
      | Inr t \<Rightarrow>
          (case bigint_rem (t + mod') mod' of
             Inl err \<Rightarrow> Inl err
           | Inr b \<Rightarrow> Inr (pow_loop mod' 1 b exp')))"

section \<open>JavaScript containers\<close>

text \<open>
  A JavaScript \<^verbatim>\<open>Map\<close> (and a plain object with non-numeric keys) keeps its entries in
  insertion order: an association list. \<^verbatim>\<open>set\<close> on a key that is present replaces the
  value in place, on a new key it appends: \<^const>\<open>AList.update\<close>. \<^verbatim>\<open>get\<close> is
  \<^const>\<open>map_of\<close>, \<^verbatim>\<open>undefined\<close> is \<open>None\<close>. Where a map is keyed by the decimal string of
  a BigInt (\<^verbatim>\<open>c.toString()\<close>), the model keys it by the integer itself.
\<close>

type_synonym ('k, 'v) jsmap = "('k \<times> 'v) list"

definition map_build :: "('k \<times> 'v) list \<Rightarrow> ('k, 'v) jsmap" where
  "map_build ps = foldl (\<lambda>m (k, v). AList.update k v m) [] ps"

definition map_has :: "('k, 'v) jsmap \<Rightarrow> 'k \<Rightarrow> bool" where
  "map_has m k = (k \<in> set (map fst m))"

text \<open>
  \<^verbatim>\<open>Array.prototype.sort(cmp)\<close> is stable, and with a consistent comparator its result is
  the stable sorted rearrangement: insertion sort by the comparator, an element going
  in front of the first one it does not exceed.
\<close>

fun insort_cmp :: "('a \<Rightarrow> 'a \<Rightarrow> int) \<Rightarrow> 'a \<Rightarrow> 'a list \<Rightarrow> 'a list" where
  "insort_cmp cmp a [] = [a]"
| "insort_cmp cmp a (b # bs) = (if cmp a b \<le> 0 then a # b # bs else b # insort_cmp cmp a bs)"

definition js_sort :: "('a \<Rightarrow> 'a \<Rightarrow> int) \<Rightarrow> 'a list \<Rightarrow> 'a list" where
  "js_sort cmp xs = foldr (insort_cmp cmp) xs []"


text \<open>A loop that pushes one result per element and stops at the first throw.\<close>

fun traverse :: "('a \<Rightarrow> 'b result) \<Rightarrow> 'a list \<Rightarrow> 'b list result" where
  "traverse f [] = Inr []"
| "traverse f (a # as) =
     (case f a of
        Inl err \<Rightarrow> Inl err
      | Inr v \<Rightarrow> (case traverse f as of Inl err \<Rightarrow> Inl err | Inr vs \<Rightarrow> Inr (v # vs)))"


text \<open>
  Strings are lists of \<^typ>\<open>char\<close>, the 8-bit characters: on the ASCII texts that the
  scripts normalise their input to, code units, code points and characters are the
  same, and \<^verbatim>\<open>s.length\<close> is \<^const>\<open>length\<close>. \<^verbatim>\<open>ch.charCodeAt(0)\<close> is \<^const>\<open>of_char\<close>
  and \<^verbatim>\<open>String.fromCharCode(k)\<close> is \<open>char_of\<close>, which agrees with JavaScript for the
  code units 0 to 255 (the letters and symbols of the scripts lie between 32 and 90).
\<close>

definition fromCharCode :: "int \<Rightarrow> char" where
  "fromCharCode k = char_of (nat k)"

definition charCode :: "char \<Rightarrow> int" where
  "charCode ch = int (of_char ch)"

section \<open>The rsa freq script: letter permutation and rank attack\<close>

definition countFreqAZ :: "string \<Rightarrow> nat list" where
  "countFreqAZ s =
     foldl (\<lambda>f ch. let i = charCode ch - 65
                    in if 0 \<le> i \<and> i < 26 then f[nat i := f ! nat i + 1] else f)
       (replicate 26 0) s"

text \<open>The comparator \<^verbatim>\<open>(a, b) => (f[b] - f[a]) || (a - b)\<close> of \<^verbatim>\<open>orderByFreq\<close>.\<close>

definition freq_cmp :: "nat list \<Rightarrow> nat \<Rightarrow> nat \<Rightarrow> int" where
  "freq_cmp f a b =
     (if int (f ! b) - int (f ! a) \<noteq> 0 then int (f ! b) - int (f ! a) else int a - int b)"

definition orderByFreq :: "string \<Rightarrow> string" where
  "orderByFreq textAZ =
     (let f = countFreqAZ textAZ;
          idx = js_sort (freq_cmp f) [0..<26]
      in map (\<lambda>i. fromCharCode (65 + int i)) idx)"

definition applySubst :: "string \<Rightarrow> (char, char) jsmap \<Rightarrow> string" where
  "applySubst textAZ m =
     map (\<lambda>ch. case map_of m ch of None \<Rightarrow> CHR ''?'' | Some l \<Rightarrow> l) textAZ"

text \<open>
  The rank attack of \<^verbatim>\<open>main\<close>: \<^verbatim>\<open>mapCipherToPlainByRank\<close> pairs the two orders rank by
  rank, and \<^verbatim>\<open>guessAZ\<close> applies it.
\<close>

definition mapCipherToPlainByRank :: "string \<Rightarrow> string \<Rightarrow> (char, char) jsmap" where
  "mapCipherToPlainByRank plainAZ cipherAZ =
     (let srcOrder = orderByFreq plainAZ;
          cipherOrder = orderByFreq cipherAZ
      in map_build (map (\<lambda>i. (cipherOrder ! i, srcOrder ! i)) [0..<26]))"

definition guessAZ :: "string \<Rightarrow> string \<Rightarrow> string" where
  "guessAZ plainAZ cipherAZ = applySubst cipherAZ (mapCipherToPlainByRank plainAZ cipherAZ)"












section \<open>The rsa attack script: per-letter RSA, rank seed and hill climbing\<close>

definition ALPHABET :: string where
  "ALPHABET = ''ABCDEFGHIJKLMNOPQRSTUVWXYZ ''"

text \<open>
  \<^verbatim>\<open>CHAR2INT\<close> and \<^verbatim>\<open>INT2CHAR\<close> are objects: a lookup outside their keys is
  \<^verbatim>\<open>undefined\<close>.
\<close>

fun index_of :: "'a list \<Rightarrow> 'a \<Rightarrow> nat option" where
  "index_of [] a = None"
| "index_of (b # bs) a = (if a = b then Some 0 else map_option Suc (index_of bs a))"

definition CHAR2INT :: "char \<Rightarrow> nat option" where
  "CHAR2INT ch = index_of ALPHABET ch"





record rsa_key =
  key_p :: int
  key_q :: int
  key_N :: int
  key_e :: int
  key_d :: int
  key_phi :: int


text \<open>A ciphertext is an array of BigInt symbols and \<^verbatim>\<open>null\<close> (\<open>None\<close>).\<close>

type_synonym cipher = "int option list"

definition encryptTextRSA :: "string \<Rightarrow> rsa_key \<Rightarrow> cipher result" where
  "encryptTextRSA text' pub =
     traverse (\<lambda>ch. case CHAR2INT ch of
                       None \<Rightarrow> Inr None
                     | Some m \<Rightarrow> (case modPow (int m) (key_e pub) (key_N pub) of
                                    Inl err \<Rightarrow> Inl err
                                  | Inr c \<Rightarrow> Inr (Some c)))
       text'"


definition countsFromArray :: "cipher \<Rightarrow> (int, nat) jsmap" where
  "countsFromArray arr =
     foldl (\<lambda>cnt c. case c of
                      None \<Rightarrow> cnt
                    | Some v \<Rightarrow> AList.update v
                        ((case map_of cnt v of None \<Rightarrow> 0 | Some k \<Rightarrow> k) + 1) cnt)
       [] arr"

text \<open>
  \<^verbatim>\<open>countsObjectFromString\<close>; \<^verbatim>\<open>main\<close> fills \<^verbatim>\<open>plainCounts\<close> with the same loop. The
  keys of the object are in the order of their first occurrence in the text.
\<close>

definition countsObjectFromString :: "string \<Rightarrow> (char, nat) jsmap" where
  "countsObjectFromString s =
     foldl (\<lambda>cnt ch. if CHAR2INT ch = None then cnt
                     else AList.update ch
                        ((case map_of cnt ch of None \<Rightarrow> 0 | Some k \<Rightarrow> k) + 1) cnt)
       [] s"

text \<open>The comparator \<^verbatim>\<open>(a, b) => b[1] - a[1]\<close>: descending count, no tie rule.\<close>

definition count_cmp :: "'a \<times> nat \<Rightarrow> 'a \<times> nat \<Rightarrow> int" where
  "count_cmp a b = int (snd b) - int (snd a)"

definition expectedCipherSymbols :: "rsa_key \<Rightarrow> int list result" where
  "expectedCipherSymbols rsaPub =
     traverse (\<lambda>i. modPow (int i) (key_e rsaPub) (key_N rsaPub)) [0..<length ALPHABET]"

text \<open>
  \<^verbatim>\<open>plainList\<close>: the keys of \<^verbatim>\<open>plainCounts\<close> by descending count, then every letter of
  the alphabet not among them, in alphabet order.
\<close>

definition plainList :: "(char, nat) jsmap \<Rightarrow> char list" where
  "plainList plainCounts =
     foldl (\<lambda>pl c. if c \<in> set pl then pl else pl @ [c])
       (map fst (js_sort count_cmp plainCounts)) ALPHABET"

text \<open>
  \<^verbatim>\<open>freqMapping\<close>. Both \<^verbatim>\<open>arr\<close> and \<^verbatim>\<open>plainList\<close> have at least \<open>length ALPHABET\<close> entries,
  so \<^verbatim>\<open>arr[i]\<close> and \<^verbatim>\<open>plainList[i]\<close> are defined in the last loop.
\<close>

definition freqMapping :: "cipher \<Rightarrow> (char, nat) jsmap \<Rightarrow> rsa_key \<Rightarrow> (int, char) jsmap result" where
  "freqMapping cipherNums plainCounts rsaPub =
     (case expectedCipherSymbols rsaPub of
        Inl err \<Rightarrow> Inl err
      | Inr expected \<Rightarrow>
          (let cCounts = countsFromArray cipherNums;
               arr = js_sort count_cmp
                       (map (\<lambda>sym. (sym, case map_of cCounts sym of None \<Rightarrow> 0 | Some k \<Rightarrow> k))
                          expected);
               pl = plainList plainCounts
           in Inr (map_build (map (\<lambda>i. (fst (arr ! i), pl ! i)) [0..<length expected]))))"

definition applyMappingToCipher :: "cipher \<Rightarrow> (int, char) jsmap \<Rightarrow> string" where
  "applyMappingToCipher cipherNums mapping =
     map (\<lambda>c. case c of
                 None \<Rightarrow> CHR ''?''
               | Some v \<Rightarrow> (case map_of mapping v of None \<Rightarrow> CHR ''?'' | Some l \<Rightarrow> l))
       cipherNums"

text \<open>
  The bigram model is the table \<^verbatim>\<open>buildBigramModelFromText\<close> builds: a log probability
  for every ordered pair of alphabet letters. \<^verbatim>\<open>scoreMapping\<close> reads it only at such
  pairs, adding from left to right.
\<close>

type_synonym bigram_model = "char \<Rightarrow> char \<Rightarrow> real"

fun score_loop :: "bigram_model \<Rightarrow> real \<Rightarrow> string \<Rightarrow> real" where
  "score_loop M score (a # b # rest) =
     score_loop M (if CHAR2INT a \<noteq> None \<and> CHAR2INT b \<noteq> None then score + M a b else score)
       (b # rest)"
| "score_loop M score [a] = score"
| "score_loop M score [] = score"

definition scoreMapping :: "(int, char) jsmap \<Rightarrow> cipher \<Rightarrow> bigram_model \<Rightarrow> real" where
  "scoreMapping mapping cipherNums bigramModel =
     score_loop bigramModel 0 (applyMappingToCipher cipherNums mapping)"

text \<open>
  \<^verbatim>\<open>hillClimb\<close> changes the \<^verbatim>\<open>Map\<close> object of its caller in place and returns the score
  only. The model passes the map's contents through: \<open>hc_mapping\<close> is what the caller's
  object holds after the call, \<open>hc_score\<close> the returned \<^verbatim>\<open>bestScore\<close>.

  The padding loop: \<^verbatim>\<open>remainingLetters.pop()\<close> takes the last unused letter, and
  \<^verbatim>\<open>ALPHABET[0]\<close> stands in when none is left.
\<close>

fun pad_loop :: "(int, char) jsmap \<Rightarrow> char list \<Rightarrow> int list \<Rightarrow> (int, char) jsmap" where
  "pad_loop mapping remainingLetters [] = mapping"
| "pad_loop mapping remainingLetters (symb # rest) =
     (if map_has mapping symb then pad_loop mapping remainingLetters rest
      else if remainingLetters \<noteq> []
      then pad_loop (AList.update symb (last remainingLetters) mapping)
             (butlast remainingLetters) rest
      else pad_loop (AList.update symb (ALPHABET ! 0) mapping) remainingLetters rest)"

definition pad_mapping :: "(int, char) jsmap \<Rightarrow> int list \<Rightarrow> (int, char) jsmap" where
  "pad_mapping mapping expected =
     (let assigned = set (map snd mapping);
          remainingLetters = filter (\<lambda>c. c \<notin> assigned) ALPHABET
      in pad_loop mapping remainingLetters expected)"

record hc_state =
  hc_mapping :: "(int, char) jsmap"
  hc_score :: real

text \<open>
  One round of the loop, for the indices \<open>i\<close> and \<open>j\<close> that the two calls of
  \<^verbatim>\<open>Math.random\<close> gave (\<open>i, j < length syms\<close>). \<open>hc_propose\<close> is the map after the two
  \<^verbatim>\<open>set\<close>s of the swap; \<open>hc_step\<close> scores it and keeps or reverts it. After the padding
  every symbol of \<open>syms\<close> is a key, so both \<^verbatim>\<open>get\<close>s find a letter; the model leaves the
  state alone otherwise.
\<close>

definition hc_propose :: "int list \<Rightarrow> (int, char) jsmap \<Rightarrow> nat \<Rightarrow> nat \<Rightarrow> (int, char) jsmap" where
  "hc_propose syms mapping i j =
     (let a = syms ! i; b = syms ! j in
      case (map_of mapping a, map_of mapping b) of
        (Some ma, Some mb) \<Rightarrow> AList.update b ma (AList.update a mb mapping)
      | _ \<Rightarrow> mapping)"

definition hc_revert :: "int list \<Rightarrow> (int, char) jsmap \<Rightarrow> (int, char) jsmap \<Rightarrow> nat \<Rightarrow> nat
    \<Rightarrow> (int, char) jsmap" where
  "hc_revert syms before proposed i j =
     (let a = syms ! i; b = syms ! j in
      case (map_of before a, map_of before b) of
        (Some ma, Some mb) \<Rightarrow> AList.update b mb (AList.update a ma proposed)
      | _ \<Rightarrow> proposed)"

definition hc_step :: "int list \<Rightarrow> cipher \<Rightarrow> bigram_model \<Rightarrow> hc_state \<Rightarrow> nat \<times> nat \<Rightarrow> hc_state" where
  "hc_step syms cipherNums bigramModel st ij =
     (case ij of (i, j) \<Rightarrow>
        if i = j then st
        else
          let proposed = hc_propose syms (hc_mapping st) i j;
              newScore = scoreMapping proposed cipherNums bigramModel
          in if newScore > hc_score st
             then \<lparr>hc_mapping = proposed, hc_score = newScore\<rparr>
             else \<lparr>hc_mapping = hc_revert syms (hc_mapping st) proposed i j,
                   hc_score = hc_score st\<rparr>)"

definition hc_loop :: "int list \<Rightarrow> cipher \<Rightarrow> bigram_model \<Rightarrow> hc_state \<Rightarrow> (nat \<times> nat) list
    \<Rightarrow> hc_state" where
  "hc_loop syms cipherNums bigramModel st picks =
     foldl (hc_step syms cipherNums bigramModel) st picks"

text \<open>
  \<^verbatim>\<open>hillClimb\<close>, with the index pairs drawn in its \<^verbatim>\<open>iterations\<close> rounds as the list
  \<open>picks\<close> (so \<^verbatim>\<open>iterations\<close> is \<open>length picks\<close>).
\<close>

definition hillClimb :: "(int, char) jsmap \<Rightarrow> cipher \<Rightarrow> bigram_model \<Rightarrow> rsa_key \<Rightarrow> (nat \<times> nat) list
    \<Rightarrow> hc_state result" where
  "hillClimb mapping cipherNums bigramModel rsaPub picks =
     (case expectedCipherSymbols rsaPub of
        Inl err \<Rightarrow> Inl err
      | Inr expected \<Rightarrow>
          (let padded = pad_mapping mapping expected;
               bestScore = scoreMapping padded cipherNums bigramModel
           in Inr (hc_loop expected cipherNums bigramModel
                     \<lparr>hc_mapping = padded, hc_score = bestScore\<rparr> picks)))"

section \<open>The cesare script: frequencies, Caesar shift and the chi-squared attack\<close>

text \<open>
  The percentages and chi-squared values are JavaScript numbers. The model computes
  them exactly, over the rationals; the rounding of the doubles is not modelled.
\<close>

definition letters :: string where
  "letters = ''ABCDEFGHIJKLMNOPQRSTUVWXYZ''"

record freq =
  counts :: "(char, nat) jsmap"
  perc :: "(char, rat) jsmap"
  freq_n :: nat

definition freqCount :: "string \<Rightarrow> freq" where
  "freqCount t =
     (let counts0 = map (\<lambda>L. (L, 0)) letters;
          cnt = foldl (\<lambda>c ch. case map_of c ch of
                                 None \<Rightarrow> c
                               | Some k \<Rightarrow> AList.update ch (k + 1) c)
                  counts0 t;
          n = (if length t = 0 then 1 else length t)
      in \<lparr>counts = cnt,
          perc = map (\<lambda>L. (L, of_nat ((case map_of cnt L of None \<Rightarrow> 0 | Some k \<Rightarrow> k) * 100)
                               / of_nat n)) letters,
          freq_n = n\<rparr>)"

text \<open>
  \<^verbatim>\<open>caesarShift\<close> rewrites the characters matching \<^verbatim>\<open>[A-Z]\<close>; \<^verbatim>\<open>%\<close> on numbers takes the
  sign of the dividend.
\<close>

definition caesarShift :: "string \<Rightarrow> int \<Rightarrow> string" where
  "caesarShift t k =
     map (\<lambda>ch. if ch \<in> set letters
                then fromCharCode (((charCode ch - 65 + k) smod 26) + 65)
                else ch) t"

definition ITALIAN_FREQ :: "(char, rat) jsmap" where
  "ITALIAN_FREQ =
     [(CHR ''A'', 1174 / 100), (CHR ''B'', 92 / 100), (CHR ''C'', 450 / 100),
      (CHR ''D'', 373 / 100), (CHR ''E'', 1179 / 100), (CHR ''F'', 95 / 100),
      (CHR ''G'', 164 / 100), (CHR ''H'', 154 / 100), (CHR ''I'', 1014 / 100),
      (CHR ''J'', 0), (CHR ''K'', 0), (CHR ''L'', 651 / 100),
      (CHR ''M'', 251 / 100), (CHR ''N'', 688 / 100), (CHR ''O'', 983 / 100),
      (CHR ''P'', 305 / 100), (CHR ''Q'', 51 / 100), (CHR ''R'', 637 / 100),
      (CHR ''S'', 498 / 100), (CHR ''T'', 562 / 100), (CHR ''U'', 301 / 100),
      (CHR ''V'', 210 / 100), (CHR ''W'', 0), (CHR ''X'', 0),
      (CHR ''Y'', 0), (CHR ''Z'', 118 / 100)]"

definition chiSquared :: "(char, rat) jsmap \<Rightarrow> rat" where
  "chiSquared obsPerc =
     foldl (\<lambda>chi (L, expected).
               let observed = (case map_of obsPerc L of None \<Rightarrow> 0 | Some v \<Rightarrow> v)
               in chi + (observed - expected)\<^sup>2 / max expected (1 / 1000000))
       0 ITALIAN_FREQ"

text \<open>
  \<^verbatim>\<open>bestShiftByFrequency\<close>. The field \<open>best_chi\<close> starts as \<^verbatim>\<open>Infinity\<close> (\<open>None\<close>), below
  which every computed value lies.
\<close>

record best =
  best_shift :: int
  best_chi :: "rat option"
  best_plain :: string

definition best_step :: "string \<Rightarrow> best \<Rightarrow> nat \<Rightarrow> best" where
  "best_step cipher' bst k =
     (let dec = caesarShift cipher' ((26 - int k) smod 26);
          chi = chiSquared (perc (freqCount dec))
      in if (case best_chi bst of None \<Rightarrow> True | Some c \<Rightarrow> chi < c)
         then \<lparr>best_shift = (26 - int k) smod 26, best_chi = Some chi, best_plain = dec\<rparr>
         else bst)"

definition bestShiftByFrequency :: "string \<Rightarrow> best" where
  "bestShiftByFrequency cipher' =
     foldl (best_step cipher') \<lparr>best_shift = 0, best_chi = None, best_plain = cipher'\<rparr> [0..<26]"

section \<open>Notions of the claims\<close>


definition letter :: "nat \<Rightarrow> char" where
  "letter m = fromCharCode (65 + int m)"


text \<open>
  Rank orders. \<open>freq_ranked f idx\<close>: \<open>idx\<close> lists the 26 letter indices by descending
  frequency \<open>f\<close>, equal frequencies by ascending index. \<open>stable_desc xs ys\<close>: \<open>ys\<close> is \<open>xs\<close>
  by descending count, entries of equal count in the order they have in \<open>xs\<close>.
\<close>

definition freq_ranked :: "nat list \<Rightarrow> nat list \<Rightarrow> bool" where
  "freq_ranked f idx =
     (distinct idx \<and> set idx = {0..<26}
      \<and> sorted_wrt (\<lambda>a b. f ! b < f ! a \<or> (f ! a = f ! b \<and> a < b)) idx)"

definition stable_desc :: "('a \<times> nat) list \<Rightarrow> ('a \<times> nat) list \<Rightarrow> bool" where
  "stable_desc xs ys =
     (sorted_wrt (\<lambda>a b. snd b \<le> snd a) ys
      \<and> (\<forall>c. filter (\<lambda>a. snd a = c) ys = filter (\<lambda>a. snd a = c) xs))"

text \<open>
  A candidate mapping is a bijection from the expected cipher symbols onto the alphabet
  when its keys are exactly those symbols and its letters exactly the letters of the
  alphabet, each once.
\<close>

definition bijection_onto_alphabet :: "(int, char) jsmap \<Rightarrow> int list \<Rightarrow> bool" where
  "bijection_onto_alphabet m syms =
     (distinct (map fst m) \<and> set (map fst m) = set syms
      \<and> distinct (map snd m) \<and> set (map snd m) = set ALPHABET)"

section \<open>Modular exponentiation\<close>

lemma smod_nonneg: "0 \<le> a \<Longrightarrow> 0 < m \<Longrightarrow> a smod m = a mod (m::int)"
  by (simp add: smod_int_alt_def sgn_if)

lemma nat_odd_half: "e mod 2 = 1 \<Longrightarrow> 0 < (e::int) \<Longrightarrow> nat e = Suc (2 * nat (e div 2))"
proof -
  assume a: "e mod 2 = 1" "0 < e"
  have e: "e = 2 * (e div 2) + 1" using a by presburger
  have h: "0 \<le> e div 2" using a by simp
  have "nat (2 * (e div 2) + 1) = Suc (2 * nat (e div 2))"
    using h by (simp add: nat_add_distrib nat_mult_distrib)
  with e show ?thesis by simp
qed

lemma nat_even_half: "e mod 2 = 0 \<Longrightarrow> 0 < (e::int) \<Longrightarrow> nat e = 2 * nat (e div 2)"
proof -
  assume a: "e mod 2 = 0" "0 < e"
  have e: "e = 2 * (e div 2)" using a by presburger
  have h: "0 \<le> e div 2" using a by simp
  have "nat (2 * (e div 2)) = 2 * nat (e div 2)"
    using h by (simp add: nat_mult_distrib)
  with e show ?thesis by simp
qed

lemma pow_loop_correct:
  "0 < m \<Longrightarrow> 0 \<le> r \<Longrightarrow> 0 \<le> b \<Longrightarrow> 0 \<le> e \<Longrightarrow>
   pow_loop m r b e = (if e = 0 then r else (r * b ^ nat e) mod m)"
proof (induction m r b e rule: pow_loop.induct)
  case (1 m r b e)
  show ?case
  proof (cases "e > 0")
    case False
    with "1.prems" show ?thesis by (simp add: pow_loop.simps)
  next
    case True
    define r' where "r' = (if e mod 2 = 1 then (r * b) smod m else r)"
    define b' where "b' = (b * b) smod m"
    have b': "b' = (b * b) mod m" "0 \<le> b'"
      using "1.prems" by (simp_all add: b'_def smod_nonneg)
    have r': "r' = (if e mod 2 = 1 then (r * b) mod m else r)" "0 \<le> r'"
      using "1.prems" by (simp_all add: r'_def smod_nonneg)
    have step: "pow_loop m r b e = pow_loop m r' b' (e div 2)"
      using True by (subst pow_loop.simps) (simp add: r'_def b'_def)
    have ih: "pow_loop m r' b' (e div 2) =
        (if e div 2 = 0 then r' else (r' * b' ^ nat (e div 2)) mod m)"
      using "1.IH"[OF True] "1.prems" b'(2) r'(2) unfolding r'_def b'_def by simp
    have sq: "(b' ^ nat (e div 2)) mod m = (b ^ (2 * nat (e div 2))) mod m"
      by (simp add: b'(1) power_mult power2_eq_square power_mod)
    show ?thesis
    proof (cases "e mod 2 = 1")
      case odd: True
      have e_eq: "nat e = Suc (2 * nat (e div 2))"
        using odd True by (rule nat_odd_half)
      show ?thesis
      proof (cases "e div 2 = 0")
        case True
        then have "e = 1" using odd by presburger
        then show ?thesis using step ih True odd r' by simp
      next
        case False
        have "(r' * b' ^ nat (e div 2)) mod m
            = ((r * b) mod m * (b' ^ nat (e div 2) mod m)) mod m"
          using odd r' by (simp add: mod_mult_right_eq)
        also have "\<dots> = ((r * b) * b ^ (2 * nat (e div 2))) mod m"
          by (simp add: sq mod_mult_eq)
        also have "\<dots> = (r * b ^ nat e) mod m"
          by (simp add: e_eq mult.assoc)
        finally show ?thesis using step ih False True by simp
      qed
    next
      case even: False
      then have ev: "e mod 2 = 0" by presburger
      have e_eq: "nat e = 2 * nat (e div 2)"
        using ev True by (rule nat_even_half)
      have nz: "e div 2 \<noteq> 0" using ev True by presburger
      have "(r' * b' ^ nat (e div 2)) mod m = (r * (b' ^ nat (e div 2) mod m)) mod m"
        using even r' by (simp add: mod_mult_right_eq)
      also have "\<dots> = (r * b ^ nat e) mod m"
        by (simp add: sq e_eq mod_mult_right_eq)
      finally show ?thesis using step ih nz True by simp
    qed
  qed
qed

lemma modPowBig_correct:
  assumes "0 \<le> base" "0 \<le> e" "1 < m"
  shows "modPowBig base e m = Inr (base ^ nat e mod m)"
proof -
  have b: "bigint_rem base m = Inr (base mod m)"
    using assms by (simp add: bigint_rem_def smod_nonneg)
  have "pow_loop m 1 (base mod m) e = base ^ nat e mod m"
    using assms by (simp add: pow_loop_correct power_mod)
  then show ?thesis by (simp add: modPowBig_def b)
qed

lemma modPow_correct:
  assumes "0 \<le> base" "0 \<le> e" "1 < m"
  shows "modPow base e m = Inr (base ^ nat e mod m)"
proof -
  have b: "bigint_rem base m = Inr (base mod m)"
    using assms by (simp add: bigint_rem_def smod_nonneg)
  have b2: "bigint_rem (base mod m + m) m = Inr (base mod m)"
    using assms by (simp add: bigint_rem_def smod_nonneg)
  have "pow_loop m 1 (base mod m) e = base ^ nat e mod m"
    using assms by (simp add: pow_loop_correct power_mod)
  then show ?thesis by (simp add: modPow_def b b2)
qed

text \<open>
  Claim C8. For every non-negative base, every exponent \<open>\<ge> 0\<close> and every modulus \<open>> 1\<close>,
  \<^verbatim>\<open>modPowBig\<close> and \<^verbatim>\<open>modPow\<close> return \<open>base ^ exp mod m\<close>; the exponent 0 gives 1, and
  the result for a base is the result for the base reduced modulo \<open>m\<close>.
\<close>

theorem modPow_square_and_multiply:
  assumes "0 \<le> base" "0 \<le> e" "1 < m"
  shows "modPowBig base e m = Inr (base ^ nat e mod m)
       \<and> modPow base e m = Inr (base ^ nat e mod m)
       \<and> modPowBig base 0 m = Inr 1
       \<and> modPow base 0 m = Inr 1
       \<and> modPowBig base e m = modPowBig (base mod m) e m
       \<and> modPow base e m = modPow (base mod m) e m"
proof -
  have r: "0 \<le> base mod m" using assms by simp
  have z: "(0::int) \<le> 0" by simp
  show ?thesis
    using modPowBig_correct[OF assms] modPow_correct[OF assms]
      modPowBig_correct[OF assms(1) z assms(3)] modPow_correct[OF assms(1) z assms(3)]
      modPowBig_correct[OF r assms(2,3)] modPow_correct[OF r assms(2,3)] assms
    by (simp add: power_mod)
qed

theorem modPow_square_and_multiply_witness:
  "modPowBig 150 7 143 = Inr 6 \<and> modPow 150 7 143 = Inr 6 \<and> modPowBig 150 0 143 = Inr 1
   \<and> modPowBig 7 7 143 = Inr 6"
  using modPow_square_and_multiply[of 150 7 143] modPow_square_and_multiply[of 7 7 143]
  by simp

section \<open>Containers\<close>

lemma traverse_all_Inr:
  "(\<And>a. a \<in> set as \<Longrightarrow> f a = Inr (h a)) \<Longrightarrow> traverse f as = Inr (map h as)"
  by (induction as) simp_all

lemma traverse_Inl:
  "a \<in> set as \<Longrightarrow> f a = Inl err \<Longrightarrow> (\<And>b. b \<in> set as \<Longrightarrow> f b = Inl err)
   \<Longrightarrow> traverse f as = Inl err"
  by (induction as) auto

lemma update_fresh: "k \<notin> fst ` set al \<Longrightarrow> AList.update k v al = al @ [(k, v)]"
  by (induction al) auto

lemma map_build_snoc: "map_build (ps @ [(k, v)]) = AList.update k v (map_build ps)"
  by (simp add: map_build_def)

lemma map_build_distinct: "distinct (map fst ps) \<Longrightarrow> map_build ps = ps"
proof (induction ps rule: rev_induct)
  case Nil
  show ?case by (simp add: map_build_def)
next
  case (snoc kv ps)
  obtain k v where kv: "kv = (k, v)" by (cases kv)
  from snoc.prems have d: "distinct (map fst ps)" and f: "k \<notin> fst ` set ps"
    by (auto simp: kv)
  show ?case
    using snoc.IH[OF d] f by (simp add: kv map_build_snoc update_fresh)
qed







lemma set_insort_cmp: "set (insort_cmp cmp a bs) = insert a (set bs)"
  by (induction bs) auto

lemma length_insort_cmp: "length (insort_cmp cmp a bs) = Suc (length bs)"
  by (induction bs) simp_all

lemma distinct_insort_cmp: "distinct (insort_cmp cmp a bs) = (a \<notin> set bs \<and> distinct bs)"
  by (induction bs) (auto simp: set_insort_cmp)

lemma set_js_sort: "set (js_sort cmp as) = set as"
  by (induction as) (simp_all add: js_sort_def set_insort_cmp)

lemma length_js_sort: "length (js_sort cmp as) = length as"
  by (induction as) (simp_all add: js_sort_def length_insort_cmp)

lemma distinct_js_sort: "distinct (js_sort cmp as) = distinct as"
proof (induction as)
  case Nil
  show ?case by (simp add: js_sort_def)
next
  case (Cons a as)
  have "js_sort cmp (a # as) = insort_cmp cmp a (js_sort cmp as)"
    by (simp add: js_sort_def)
  then show ?case using Cons by (simp add: distinct_insort_cmp set_js_sort)
qed

section \<open>Key validation\<close>







lemma charCode_letter: "m < 26 \<Longrightarrow> charCode (letter m) = 65 + int m"
  by (simp add: charCode_def letter_def fromCharCode_def nat_add_distrib)

lemma letter_inj: "m < 26 \<Longrightarrow> k < 26 \<Longrightarrow> letter m = letter k \<Longrightarrow> m = k"
  by (metis charCode_letter add_left_cancel of_nat_eq_iff)


lemma traverse_modPowBig_zero:
  "ms \<noteq> [] \<Longrightarrow> traverse (\<lambda>m. modPowBig (int m) e 0) ms = Inl RangeError"
  by (cases ms) (simp_all add: modPowBig_def bigint_rem_def)








section \<open>Fermat's little theorem and the RSA cycle\<close>









section \<open>Round trip of the letter permutation\<close>


lemma letter_inj_on: "inj_on letter (set [0..<26])"
  by (rule inj_onI) (simp add: letter_inj)









section \<open>Letter frequencies\<close>

lemma letters_distinct': "distinct letters"
  by code_simp

lemma update_tabulate:
  "distinct ks \<Longrightarrow> k \<in> set ks \<Longrightarrow>
   AList.update k v (map (\<lambda>L. (L, f L)) ks) = map (\<lambda>L. (L, (f(k := v)) L)) ks"
proof (induction ks)
  case Nil
  then show ?case by simp
next
  case (Cons a ks)
  show ?case
  proof (cases "a = k")
    case True
    then have "k \<notin> set ks" using Cons.prems(1) by simp
    then have "map (\<lambda>L. (L, (f(k := v)) L)) ks = map (\<lambda>L. (L, f L)) ks"
      by (intro map_cong) auto
    then show ?thesis using True by simp
  next
    case False
    then show ?thesis using Cons by auto
  qed
qed

lemma map_of_tabulate_set:
  "map_of (map (\<lambda>L. (L, f L)) ks) k = (if k \<in> set ks then Some (f k) else None)"
  by (induction ks) auto

lemma count_fold:
  assumes "distinct ks"
  shows "foldl (\<lambda>c ch. case map_of c ch of None \<Rightarrow> c | Some k \<Rightarrow> AList.update ch (k + 1) c)
           (map (\<lambda>L. (L, f L)) ks) t
       = map (\<lambda>L. (L, f L + count_list t L)) ks"
proof (induction t arbitrary: f)
  case Nil
  show ?case by simp
next
  case (Cons ch t)
  show ?case
  proof (cases "ch \<in> set ks")
    case True
    have "map (\<lambda>L. (L, (f(ch := f ch + 1)) L + count_list t L)) ks
        = map (\<lambda>L. (L, f L + count_list (ch # t) L)) ks"
      by (intro map_cong) auto
    then show ?thesis
      using True Cons.IH[of "f(ch := f ch + 1)"]
      by (simp add: map_of_tabulate_set update_tabulate[OF assms True])
  next
    case False
    have "map (\<lambda>L. (L, f L + count_list t L)) ks
        = map (\<lambda>L. (L, f L + count_list (ch # t) L)) ks"
      using False by (intro map_cong) auto
    then show ?thesis
      using False Cons.IH[of f] by (simp add: map_of_tabulate_set)
  qed
qed

lemma freqCount_counts:
  "counts (freqCount t) = map (\<lambda>L. (L, count_list t L)) letters"
  using count_fold[OF letters_distinct', of "\<lambda>L. 0" t]
  by (simp add: freqCount_def Let_def)

lemma freqCount_perc:
  "perc (freqCount t) =
     map (\<lambda>L. (L, of_nat (count_list t L * 100) / of_nat (if t = [] then 1 else length t))) letters"
proof -
  have "map_of (map (\<lambda>L. (L, count_list t L)) letters) L = Some (count_list t L)"
    if "L \<in> set letters" for L
    using that by (simp add: map_of_tabulate_set)
  then have "map (\<lambda>L. (L, of_nat ((case map_of (map (\<lambda>L. (L, count_list t L)) letters) L of
                 None \<Rightarrow> 0 | Some k \<Rightarrow> k) * 100) / (of_nat (if t = [] then 1 else length t) :: rat)))
              letters
      = map (\<lambda>L. (L, of_nat (count_list t L * 100) / of_nat (if t = [] then 1 else length t))) letters"
    by (intro map_cong) simp_all
  moreover have "perc (freqCount t) =
      map (\<lambda>L. (L, of_nat ((case map_of (counts (freqCount t)) L of
                 None \<Rightarrow> 0 | Some k \<Rightarrow> k) * 100) / of_nat (if t = [] then 1 else length t))) letters"
    by (simp add: freqCount_def Let_def)
  ultimately show ?thesis by (simp only: freqCount_counts)
qed





section \<open>The chi-squared attack\<close>

lemma shifts_BO:
  "map (\<lambda>k. ((26 - int k) smod 26, caesarShift ''BO'' ((26 - int k) smod 26))) [0..<26] =
  [(0, ''BO''), (25, ''AN''), (24, ''ZM''), (23, ''YL''), (22, ''XK''), (21, ''WJ''), (20, ''VI''),
   (19, ''UH''), (18, ''TG''), (17, ''SF''), (16, ''RE''), (15, ''QD''), (14, ''PC''), (13, ''OB''),
   (12, ''NA''), (11, ''MZ''), (10, ''LY''), (9, ''KX''), (8, ''JW''), (7, ''IV''), (6, ''HU''),
   (5, ''GT''), (4, ''FS''), (3, ''ER''), (2, ''DQ''), (1, ''CP'')]"
  by code_simp

lemma foldl_best_step:
  "foldl (best_step c) b ks =
   foldl (\<lambda>bst (s, dec). let chi = chiSquared (perc (freqCount dec))
                       in if (case best_chi bst of None \<Rightarrow> True | Some c \<Rightarrow> chi < c)
                          then \<lparr>best_shift = s, best_chi = Some chi, best_plain = dec\<rparr> else bst)
     b (map (\<lambda>k. ((26 - int k) smod 26, caesarShift c ((26 - int k) smod 26))) ks)"
  by (induction ks arbitrary: b) (simp_all add: best_step_def Let_def)

lemma bestShift_BO:
  "bestShiftByFrequency ''BO'' =
     \<lparr>best_shift = 25, best_chi = Some (24020309 / 50482), best_plain = ''AN''\<rparr>"
  unfolding bestShiftByFrequency_def foldl_best_step shifts_BO
  by (simp add: freqCount_perc chiSquared_def ITALIAN_FREQ_def letters_def power2_eq_square Let_def)

lemma chi_NA: "chiSquared (perc (freqCount ''NA'')) = 24020309 / 50482"
  by (simp add: freqCount_perc chiSquared_def ITALIAN_FREQ_def letters_def power2_eq_square)

text \<open>
  Claim C3 says that \<^verbatim>\<open>bestShiftByFrequency\<close> returns the shift whose decoding has the
  least chi-squared value, the first candidate in the order 0, 1, ..., 25 winning a
  tie. The loop tries its candidates \<open>k\<close> in that order and keeps the first minimum, but
  the record it returns holds \<open>(26 - k) mod 26\<close> in its field \<^verbatim>\<open>shift\<close>, where the
  comment of the function promises the shift with \<^verbatim>\<open>ENC(plain, shift) = cipher\<close>.

  On the ciphertext \<open>BO\<close> the candidates 1 and 14 (decodings \<open>AN\<close> and \<open>NA\<close>) tie for the
  minimum. The code returns shift 25 with the plaintext \<open>AN\<close>: encrypting \<open>AN\<close> with 25
  gives \<open>ZM\<close>, it is the shift 1 that gives \<open>BO\<close>; and of the two decoding shifts 12 and
  25 with the minimal value, the returned one is not the smaller.
\<close>

theorem bestShift_returns_complement:
  "bestShiftByFrequency ''BO'' =
     \<lparr>best_shift = 25, best_chi = Some (24020309 / 50482), best_plain = ''AN''\<rparr>
   \<and> caesarShift ''AN'' 1 = ''BO''
   \<and> caesarShift ''AN'' 25 = ''ZM''
   \<and> caesarShift ''BO'' 12 = ''NA''
   \<and> chiSquared (perc (freqCount (caesarShift ''BO'' 12))) = 24020309 / 50482"
proof -
  have s: "caesarShift ''AN'' 1 = ''BO'' \<and> caesarShift ''AN'' 25 = ''ZM''
      \<and> caesarShift ''BO'' 12 = ''NA''"
    by code_simp
  then show ?thesis using bestShift_BO chi_NA by simp
qed

section \<open>Decoding a ciphertext\<close>










section \<open>The rank alignment attack\<close>

lemma sorted_wrt_insort_cmp:
  assumes tr: "\<And>a b c. cmp a b \<le> 0 \<Longrightarrow> cmp b c \<le> 0 \<Longrightarrow> cmp a c \<le> 0"
    and tot: "\<And>a b. cmp a b \<le> 0 \<or> cmp b a \<le> 0"
  shows "sorted_wrt (\<lambda>a b. cmp a b \<le> 0) bs \<Longrightarrow> sorted_wrt (\<lambda>a b. cmp a b \<le> 0) (insort_cmp cmp a bs)"
proof (induction bs)
  case Nil
  show ?case by simp
next
  case (Cons b bs)
  show ?case
  proof (cases "cmp a b \<le> 0")
    case True
    have "\<forall>c\<in>set bs. cmp a c \<le> 0" using Cons.prems True tr by auto
    then show ?thesis using True Cons.prems by simp
  next
    case False
    then have "cmp b a \<le> 0" using tot[of a b] by simp
    then show ?thesis using False Cons by (auto simp: set_insort_cmp)
  qed
qed

lemma sorted_wrt_js_sort:
  assumes tr: "\<And>a b c. cmp a b \<le> 0 \<Longrightarrow> cmp b c \<le> 0 \<Longrightarrow> cmp a c \<le> 0"
    and tot: "\<And>a b. cmp a b \<le> 0 \<or> cmp b a \<le> 0"
  shows "sorted_wrt (\<lambda>a b. cmp a b \<le> 0) (js_sort cmp as)"
proof (induction as)
  case Nil
  show ?case by (simp add: js_sort_def)
next
  case (Cons a as)
  have "js_sort cmp (a # as) = insort_cmp cmp a (js_sort cmp as)" by (simp add: js_sort_def)
  then show ?case using sorted_wrt_insort_cmp[OF tr tot Cons] by simp
qed

lemma sorted_wrt_distinct:
  "sorted_wrt R as \<Longrightarrow> distinct as \<Longrightarrow> sorted_wrt (\<lambda>a b. R a b \<and> a \<noteq> b) as"
  by (induction as) auto

lemma orderByFreq_ranked:
  "freq_ranked (countFreqAZ t) (js_sort (freq_cmp (countFreqAZ t)) [0..<26])"
proof -
  define f where "f = countFreqAZ t"
  define idx where "idx = js_sort (freq_cmp f) [0..<26]"
  have d: "distinct idx" by (simp add: idx_def distinct_js_sort)
  have s: "set idx = {0..<26}" by (simp add: idx_def set_js_sort)
  have "sorted_wrt (\<lambda>a b. freq_cmp f a b \<le> 0) idx"
    unfolding idx_def by (rule sorted_wrt_js_sort) (auto simp: freq_cmp_def split: if_splits)
  then have "sorted_wrt (\<lambda>a b. freq_cmp f a b \<le> 0 \<and> a \<noteq> b) idx"
    using d by (rule sorted_wrt_distinct)
  then have "sorted_wrt (\<lambda>a b. f ! b < f ! a \<or> (f ! a = f ! b \<and> a < b)) idx"
    by (rule sorted_wrt_mono_rel[rotated]) (auto simp: freq_cmp_def split: if_splits)
  then show ?thesis using d s unfolding freq_ranked_def f_def idx_def by simp
qed

lemma filter_insort_count:
  "filter (\<lambda>a. snd a = c) (insort_cmp count_cmp a bs)
     = (if snd a = c then a # filter (\<lambda>a. snd a = c) bs else filter (\<lambda>a. snd a = c) bs)"
  by (induction bs) (auto simp: count_cmp_def)

lemma js_sort_stable_desc: "stable_desc as (js_sort count_cmp as)"
proof -
  have "sorted_wrt (\<lambda>a b. count_cmp a b \<le> 0) (js_sort count_cmp as)"
    by (rule sorted_wrt_js_sort) (auto simp: count_cmp_def)
  then have s: "sorted_wrt (\<lambda>a b. snd b \<le> snd a) (js_sort count_cmp as)"
    by (simp add: count_cmp_def)
  have "filter (\<lambda>a. snd a = c) (js_sort count_cmp as) = filter (\<lambda>a. snd a = c) as" for c
  proof (induction as)
    case Nil
    show ?case by (simp add: js_sort_def)
  next
    case (Cons a as)
    have "js_sort count_cmp (a # as) = insort_cmp count_cmp a (js_sort count_cmp as)"
      by (simp add: js_sort_def)
    then show ?case using Cons by (simp add: filter_insort_count)
  qed
  with s show ?thesis by (simp add: stable_desc_def)
qed

lemma append_missing:
  "distinct cs \<Longrightarrow>
   foldl (\<lambda>pl c. if c \<in> set pl then pl else pl @ [c]) init cs
     = init @ filter (\<lambda>c. c \<notin> set init) cs"
proof (induction cs arbitrary: init)
  case Nil
  show ?case by simp
next
  case (Cons c cs)
  show ?case
  proof (cases "c \<in> set init")
    case True
    then show ?thesis using Cons by simp
  next
    case False
    have "filter (\<lambda>a. a \<notin> set (init @ [c])) cs = filter (\<lambda>a. a \<notin> set init) cs"
      using Cons.prems by (intro filter_cong) auto
    then show ?thesis using False Cons by simp
  qed
qed

lemma ALPHABET_distinct: "distinct ALPHABET"
  by code_simp

lemma plainList_eq:
  "plainList pc = map fst (js_sort count_cmp pc) @ filter (\<lambda>c. c \<notin> fst ` set pc) ALPHABET"
  unfolding plainList_def append_missing[OF ALPHABET_distinct]
  by (simp add: set_js_sort)

lemma length_plainList: "length ALPHABET \<le> length (plainList pc)"
proof -
  have "set ALPHABET \<subseteq> set (plainList pc)"
    by (auto simp: plainList_eq set_js_sort)
  then have "card (set ALPHABET) \<le> card (set (plainList pc))"
    by (intro card_mono) simp_all
  also have "\<dots> \<le> length (plainList pc)" by (rule card_length)
  finally show ?thesis by (simp add: distinct_card[OF ALPHABET_distinct])
qed

lemma traverse_length: "traverse f as = Inr bs \<Longrightarrow> length bs = length as"
  by (induction as arbitrary: bs) (auto split: sum.splits)

lemma tabulate_zip:
  "length as = n \<Longrightarrow> n \<le> length bs \<Longrightarrow> map (\<lambda>i. (as ! i, bs ! i)) [0..<n] = zip as bs"
  by (rule nth_equalityI) simp_all

lemma counts_fold:
  "(case map_of (foldl (\<lambda>cnt c. case c of
                      None \<Rightarrow> cnt
                    | Some v \<Rightarrow> AList.update v
                        ((case map_of cnt v of None \<Rightarrow> 0 | Some k \<Rightarrow> k) + 1) cnt) init arr) s of
      None \<Rightarrow> 0 | Some k \<Rightarrow> k)
   = (case map_of init s of None \<Rightarrow> 0 | Some k \<Rightarrow> k) + count_list arr (Some s)"
proof (induction arr arbitrary: init)
  case Nil
  show ?case by simp
next
  case (Cons c arr)
  show ?case
  proof (cases c)
    case None
    then show ?thesis using Cons[of init] by simp
  next
    case (Some v)
    then show ?thesis
      using Cons[of "AList.update v ((case map_of init v of None \<Rightarrow> 0 | Some k \<Rightarrow> k) + 1) init"]
      by (simp add: update_conv')
  qed
qed

lemma countsFromArray_count:
  "(case map_of (countsFromArray arr) s of None \<Rightarrow> 0 | Some k \<Rightarrow> k) = count_list arr (Some s)"
  using counts_fold[of "[]" arr s] by (simp add: countsFromArray_def)

lemma length_ALPHABET: "length ALPHABET = 27"
  by (simp add: ALPHABET_def)

lemma expectedCipherSymbols_power:
  assumes "1 < key_N pub" "0 \<le> key_e pub"
  shows "expectedCipherSymbols pub =
     Inr (map (\<lambda>i. int i ^ nat (key_e pub) mod key_N pub) [0..<27])"
  unfolding expectedCipherSymbols_def length_ALPHABET
  by (rule traverse_all_Inr) (simp add: modPow_correct assms)

lemma program_symbols:
  "expectedCipherSymbols
     \<lparr>key_p = 101, key_q = 113, key_N = 11413, key_e = 17, key_d = 3953, key_phi = 11200\<rparr> =
   Inr [0, 1, 5529, 2068, 5827, 10659, 9559, 11304, 9997, 8162, 8292, 10997, 9521, 10581, 2228,
        4309, 254, 10215, 696, 10875, 447, 2848, 5362, 3176, 4853, 9279, 10724]"
proof -
  have "map (\<lambda>i. int i ^ nat 17 mod 11413) [0..<27] =
      [0, 1, 5529, 2068, 5827, 10659, 9559, 11304, 9997, 8162, 8292, 10997, 9521, 10581, 2228,
        4309, 254, 10215, 696, 10875, 447, 2848, 5362, 3176, 4853, 9279, 10724]"
    by code_simp
  then show ?thesis by (simp add: expectedCipherSymbols_power)
qed

text \<open>
  Claim C4, amended. The rank alignment is one deterministic pass (the functions below
  take no random input) that pairs the entries of equal rank. In the rsa freq script
  \<^verbatim>\<open>orderByFreq\<close> ranks the 26 letters by descending frequency and breaks ties by
  ascending letter index, for the reference text and the ciphertext alike. In the rsa
  attack script \<^verbatim>\<open>freqMapping\<close> ranks by descending count with a stable sort and no tie
  rule: cipher symbols of equal count stay in the order of the plaintext indices they
  encrypt, reference letters of equal count in the order in which \<^verbatim>\<open>plainCounts\<close> first
  met them, followed by the letters it never met in alphabet order.
\<close>

theorem rank_alignment:
  "(\<exists>idx. freq_ranked (countFreqAZ t) idx \<and> orderByFreq t = map letter idx)
   \<and> mapCipherToPlainByRank plainAZ cipherAZ = zip (orderByFreq cipherAZ) (orderByFreq plainAZ)
   \<and> (expectedCipherSymbols rsaPub = Inr expected \<longrightarrow>
        (\<exists>arr srt.
           freqMapping cipherNums plainCounts rsaPub =
             Inr (map_build (zip (map fst arr)
                    (map fst srt @ filter (\<lambda>c. c \<notin> fst ` set plainCounts) ALPHABET)))
           \<and> stable_desc (map (\<lambda>s. (s, count_list cipherNums (Some s))) expected) arr
           \<and> stable_desc plainCounts srt))"
proof -
  have one: "\<exists>idx. freq_ranked (countFreqAZ t) idx \<and> orderByFreq t = map letter idx"
    using orderByFreq_ranked[of t] by (auto simp: orderByFreq_def Let_def letter_def)
  have len: "length (orderByFreq s) = 26" for s
    by (simp add: orderByFreq_def Let_def length_js_sort)
  have dist: "distinct (orderByFreq s)" for s
  proof -
    have "distinct (js_sort (freq_cmp (countFreqAZ s)) [0..<26])"
      by (simp add: distinct_js_sort)
    moreover have "set (js_sort (freq_cmp (countFreqAZ s)) [0..<26]) = set [0..<26]"
      by (simp add: set_js_sort)
    moreover have "orderByFreq s = map letter (js_sort (freq_cmp (countFreqAZ s)) [0..<26])"
      by (simp add: orderByFreq_def Let_def letter_def)
    ultimately show ?thesis using letter_inj_on by (simp add: distinct_map)
  qed
  have z: "map (\<lambda>i. (orderByFreq cipherAZ ! i, orderByFreq plainAZ ! i)) [0..<26]
      = zip (orderByFreq cipherAZ) (orderByFreq plainAZ)"
    by (rule tabulate_zip) (simp_all add: len)
  have two: "mapCipherToPlainByRank plainAZ cipherAZ
      = zip (orderByFreq cipherAZ) (orderByFreq plainAZ)"
    unfolding mapCipherToPlainByRank_def Let_def z
    by (rule map_build_distinct) (simp add: len dist)
  have three: "\<exists>arr srt.
           freqMapping cipherNums plainCounts rsaPub =
             Inr (map_build (zip (map fst arr)
                    (map fst srt @ filter (\<lambda>c. c \<notin> fst ` set plainCounts) ALPHABET)))
           \<and> stable_desc (map (\<lambda>s. (s, count_list cipherNums (Some s))) expected) arr
           \<and> stable_desc plainCounts srt"
    if ex: "expectedCipherSymbols rsaPub = Inr expected"
  proof -
    define arr where
      "arr = js_sort count_cmp (map (\<lambda>s. (s, count_list cipherNums (Some s))) expected)"
    define srt where "srt = js_sort count_cmp plainCounts"
    have le: "length expected = length ALPHABET"
      using traverse_length[OF ex[unfolded expectedCipherSymbols_def]] by simp
    have la: "length (map fst arr) = length expected"
      by (simp add: arr_def length_js_sort)
    have "map (\<lambda>i. (fst (arr ! i), plainList plainCounts ! i)) [0..<length expected]
        = map (\<lambda>i. (map fst arr ! i, plainList plainCounts ! i)) [0..<length expected]"
      using la by (intro map_cong) simp_all
    also have "\<dots> = zip (map fst arr) (plainList plainCounts)"
      by (rule tabulate_zip[OF la]) (simp add: le length_plainList)
    finally have "freqMapping cipherNums plainCounts rsaPub =
        Inr (map_build (zip (map fst arr) (plainList plainCounts)))"
      by (simp add: freqMapping_def ex Let_def arr_def countsFromArray_count)
    then show ?thesis
      using js_sort_stable_desc[of "map (\<lambda>s. (s, count_list cipherNums (Some s))) expected"]
        js_sort_stable_desc[of plainCounts]
      unfolding arr_def[symmetric] srt_def[symmetric] plainList_eq
      by (auto simp: srt_def)
  qed
  show ?thesis using one two three by blast
qed

theorem rank_alignment_witness:
  "expectedCipherSymbols
     \<lparr>key_p = 101, key_q = 113, key_N = 11413, key_e = 17, key_d = 3953, key_phi = 11200\<rparr> =
   Inr [0, 1, 5529, 2068, 5827, 10659, 9559, 11304, 9997, 8162, 8292, 10997, 9521, 10581, 2228,
        4309, 254, 10215, 696, 10875, 447, 2848, 5362, 3176, 4853, 9279, 10724]
   \<and> orderByFreq ''HELLOWORLD'' = ''LODEHRWABCFGIJKMNPQSTUVXYZ''
   \<and> (\<exists>idx. freq_ranked (countFreqAZ ''HELLOWORLD'') idx \<and> orderByFreq ''HELLOWORLD'' = map letter idx)
   \<and> mapCipherToPlainByRank ''HELLO'' ''DQXXN'' = zip (orderByFreq ''DQXXN'') (orderByFreq ''HELLO'')
   \<and> (\<exists>arr srt.
         freqMapping [Some 1, Some 0] [(CHR ''B'', 1), (CHR ''A'', 1)]
           \<lparr>key_p = 101, key_q = 113, key_N = 11413, key_e = 17, key_d = 3953, key_phi = 11200\<rparr> =
           Inr (map_build (zip (map fst arr)
                  (map fst srt @ filter (\<lambda>c. c \<notin> fst ` set [(CHR ''B'', 1::nat), (CHR ''A'', 1)]) ALPHABET)))
         \<and> stable_desc (map (\<lambda>s. (s, count_list [Some 1, Some 0] (Some s)))
              [0, 1, 5529, 2068, 5827, 10659, 9559, 11304, 9997, 8162, 8292, 10997, 9521, 10581,
               2228, 4309, 254, 10215, 696, 10875, 447, 2848, 5362, 3176, 4853, 9279, 10724]) arr
         \<and> stable_desc [(CHR ''B'', 1), (CHR ''A'', 1)] srt)"
proof -
  have o: "orderByFreq ''HELLOWORLD'' = ''LODEHRWABCFGIJKMNPQSTUVXYZ''" by code_simp
  note r = rank_alignment[of "''HELLOWORLD''" "''HELLO''" "''DQXXN''"
      "\<lparr>key_p = 101, key_q = 113, key_N = 11413, key_e = 17, key_d = 3953, key_phi = 11200\<rparr>"
      "[0, 1, 5529, 2068, 5827, 10659, 9559, 11304, 9997, 8162, 8292, 10997, 9521, 10581, 2228,
        4309, 254, 10215, 696, 10875, 447, 2848, 5362, 3176, 4853, 9279, 10724]"
      "[Some 1, Some 0]" "[(CHR ''B'', 1), (CHR ''A'', 1)]"]
  note r1 = r[THEN conjunct1]
  note r2 = r[THEN conjunct2, THEN conjunct1]
  note r3 = r[THEN conjunct2, THEN conjunct2, THEN mp, OF program_symbols]
  show ?thesis
    by (intro conjI) (rule program_symbols, rule o, rule r1, rule r2, rule r3)
qed

text \<open>
  In the plaintext \<open>BA\<close> the letters \<open>A\<close> and \<open>B\<close> both occur once. \<^verbatim>\<open>plainCounts\<close> meets \<open>B\<close>
  first, so \<^verbatim>\<open>freqMapping\<close> ranks \<open>B\<close> (index 1) before \<open>A\<close> (index 0), gives \<open>B\<close> to the
  symbol 0 and \<open>A\<close> to the symbol 1, and the ciphertext of \<open>BA\<close> is decoded as \<open>AB\<close>.
\<close>

theorem freqMapping_ties_by_first_occurrence:
  "countsObjectFromString ''BA'' = [(CHR ''B'', 1), (CHR ''A'', 1)]
   \<and> CHAR2INT CHR ''A'' = Some 0 \<and> CHAR2INT CHR ''B'' = Some 1
   \<and> plainList [(CHR ''B'', 1), (CHR ''A'', 1)] = ''BACDEFGHIJKLMNOPQRSTUVWXYZ ''
   \<and> encryptTextRSA ''BA''
        \<lparr>key_p = 101, key_q = 113, key_N = 11413, key_e = 17, key_d = 3953, key_phi = 11200\<rparr>
      = Inr [Some 1, Some 0]
   \<and> freqMapping [Some 1, Some 0] [(CHR ''B'', 1), (CHR ''A'', 1)]
        \<lparr>key_p = 101, key_q = 113, key_N = 11413, key_e = 17, key_d = 3953, key_phi = 11200\<rparr>
      = Inr [(0, CHR ''B''), (1, CHR ''A''), (5529, CHR ''C''), (2068, CHR ''D''),
             (5827, CHR ''E''), (10659, CHR ''F''), (9559, CHR ''G''), (11304, CHR ''H''),
             (9997, CHR ''I''), (8162, CHR ''J''), (8292, CHR ''K''), (10997, CHR ''L''),
             (9521, CHR ''M''), (10581, CHR ''N''), (2228, CHR ''O''), (4309, CHR ''P''),
             (254, CHR ''Q''), (10215, CHR ''R''), (696, CHR ''S''), (10875, CHR ''T''),
             (447, CHR ''U''), (2848, CHR ''V''), (5362, CHR ''W''), (3176, CHR ''X''),
             (4853, CHR ''Y''), (9279, CHR ''Z''), (10724, CHR '' '')]
   \<and> applyMappingToCipher [Some 1, Some 0]
        [(0, CHR ''B''), (1, CHR ''A''), (5529, CHR ''C''), (2068, CHR ''D''),
             (5827, CHR ''E''), (10659, CHR ''F''), (9559, CHR ''G''), (11304, CHR ''H''),
             (9997, CHR ''I''), (8162, CHR ''J''), (8292, CHR ''K''), (10997, CHR ''L''),
             (9521, CHR ''M''), (10581, CHR ''N''), (2228, CHR ''O''), (4309, CHR ''P''),
             (254, CHR ''Q''), (10215, CHR ''R''), (696, CHR ''S''), (10875, CHR ''T''),
             (447, CHR ''U''), (2848, CHR ''V''), (5362, CHR ''W''), (3176, CHR ''X''),
             (4853, CHR ''Y''), (9279, CHR ''Z''), (10724, CHR '' '')]
      = ''AB''"
proof -
  have c: "countsObjectFromString ''BA'' = [(CHR ''B'', 1), (CHR ''A'', 1)]
      \<and> CHAR2INT CHR ''A'' = Some 0 \<and> CHAR2INT CHR ''B'' = Some 1
      \<and> plainList [(CHR ''B'', 1), (CHR ''A'', 1)] = ''BACDEFGHIJKLMNOPQRSTUVWXYZ ''"
    by code_simp
  have e: "encryptTextRSA ''BA''
        \<lparr>key_p = 101, key_q = 113, key_N = 11413, key_e = 17, key_d = 3953, key_phi = 11200\<rparr>
      = Inr [Some 1, Some 0]"
    by code_simp
  have f: "freqMapping [Some 1, Some 0] [(CHR ''B'', 1), (CHR ''A'', 1)]
        \<lparr>key_p = 101, key_q = 113, key_N = 11413, key_e = 17, key_d = 3953, key_phi = 11200\<rparr>
      = Inr [(0, CHR ''B''), (1, CHR ''A''), (5529, CHR ''C''), (2068, CHR ''D''),
             (5827, CHR ''E''), (10659, CHR ''F''), (9559, CHR ''G''), (11304, CHR ''H''),
             (9997, CHR ''I''), (8162, CHR ''J''), (8292, CHR ''K''), (10997, CHR ''L''),
             (9521, CHR ''M''), (10581, CHR ''N''), (2228, CHR ''O''), (4309, CHR ''P''),
             (254, CHR ''Q''), (10215, CHR ''R''), (696, CHR ''S''), (10875, CHR ''T''),
             (447, CHR ''U''), (2848, CHR ''V''), (5362, CHR ''W''), (3176, CHR ''X''),
             (4853, CHR ''Y''), (9279, CHR ''Z''), (10724, CHR '' '')]"
    unfolding freqMapping_def program_symbols by code_simp
  have a: "applyMappingToCipher [Some 1, Some 0]
        [(0, CHR ''B''), (1, CHR ''A''), (5529, CHR ''C''), (2068, CHR ''D''),
             (5827, CHR ''E''), (10659, CHR ''F''), (9559, CHR ''G''), (11304, CHR ''H''),
             (9997, CHR ''I''), (8162, CHR ''J''), (8292, CHR ''K''), (10997, CHR ''L''),
             (9521, CHR ''M''), (10581, CHR ''N''), (2228, CHR ''O''), (4309, CHR ''P''),
             (254, CHR ''Q''), (10215, CHR ''R''), (696, CHR ''S''), (10875, CHR ''T''),
             (447, CHR ''U''), (2848, CHR ''V''), (5362, CHR ''W''), (3176, CHR ''X''),
             (4853, CHR ''Y''), (9279, CHR ''Z''), (10724, CHR '' '')]
      = ''AB''"
    by code_simp
  from c e f a show ?thesis by blast
qed

section \<open>Hill climbing\<close>

lemma update_commute:
  "k \<noteq> k' \<Longrightarrow> k \<in> fst ` set al \<Longrightarrow> k' \<in> fst ` set al \<Longrightarrow>
   AList.update k v (AList.update k' v' al) = AList.update k' v' (AList.update k v al)"
  by (induction al) auto

lemma map_of_key: "map_of al k = Some v \<Longrightarrow> k \<in> fst ` set al"
  by (metis map_of_SomeD fst_conv image_eqI)

lemma keys_update_present:
  "k \<in> fst ` set al \<Longrightarrow> map fst (AList.update k v al) = map fst al"
  by (induction al) auto

lemma revert_restores:
  "hc_revert syms m (hc_propose syms m i j) i j = m"
proof (cases "map_of m (syms ! i)")
  case None
  then show ?thesis by (simp add: hc_revert_def hc_propose_def Let_def)
next
  case a: (Some ma)
  show ?thesis
  proof (cases "map_of m (syms ! j)")
    case None
    then show ?thesis using a by (simp add: hc_revert_def hc_propose_def Let_def)
  next
    case b: (Some mb)
    have ka: "syms ! i \<in> fst ` set m" and kb: "syms ! j \<in> fst ` set m"
      using a b by (auto dest: map_of_key)
    show ?thesis
    proof (cases "syms ! i = syms ! j")
      case True
      then have "ma = mb" using a b by simp
      then show ?thesis using a b True
        by (simp add: hc_revert_def hc_propose_def Let_def update_triv)
    next
      case False
      have "AList.update (syms ! j) mb
              (AList.update (syms ! i) ma
                 (AList.update (syms ! j) ma (AList.update (syms ! i) mb m)))
          = AList.update (syms ! j) mb
              (AList.update (syms ! j) ma
                 (AList.update (syms ! i) ma (AList.update (syms ! i) mb m)))"
        using False ka kb
        by (subst update_commute[of "syms ! i" "syms ! j"]) (simp_all add: dom_update)
      also have "\<dots> = AList.update (syms ! j) mb (AList.update (syms ! i) ma m)"
        by simp
      also have "\<dots> = m" using a b by (simp add: update_triv)
      finally show ?thesis using a b by (simp add: hc_revert_def hc_propose_def Let_def)
    qed
  qed
qed

lemma hc_propose_same: "hc_propose syms m i i = m"
  by (simp add: hc_propose_def Let_def update_triv split: option.splits)

lemma hc_step_eq:
  "hc_step syms cipherNums M st (i, j) =
     (if i \<noteq> j \<and> scoreMapping (hc_propose syms (hc_mapping st) i j) cipherNums M > hc_score st
      then \<lparr>hc_mapping = hc_propose syms (hc_mapping st) i j,
            hc_score = scoreMapping (hc_propose syms (hc_mapping st) i j) cipherNums M\<rparr>
      else st)"
  by (simp add: hc_step_def Let_def revert_restores)

lemma hc_step_score_mono: "hc_score st \<le> hc_score (hc_step syms cipherNums M st ij)"
  by (cases ij) (simp add: hc_step_eq)

lemma hc_loop_score_mono: "hc_score st \<le> hc_score (hc_loop syms cipherNums M st picks)"
proof (induction picks arbitrary: st)
  case Nil
  show ?case by (simp add: hc_loop_def)
next
  case (Cons ij picks)
  have "hc_score st \<le> hc_score (hc_step syms cipherNums M st ij)"
    by (rule hc_step_score_mono)
  also have "\<dots> \<le> hc_score (hc_loop syms cipherNums M (hc_step syms cipherNums M st ij) picks)"
    by (rule Cons)
  finally show ?case by (simp add: hc_loop_def)
qed

lemma hc_loop_append:
  "hc_loop syms cipherNums M st (ps @ qs) = hc_loop syms cipherNums M (hc_loop syms cipherNums M st ps) qs"
  by (simp add: hc_loop_def)

lemma hc_step_score_inv:
  "hc_score st = scoreMapping (hc_mapping st) cipherNums M \<Longrightarrow>
   hc_score (hc_step syms cipherNums M st ij)
     = scoreMapping (hc_mapping (hc_step syms cipherNums M st ij)) cipherNums M"
  by (cases ij) (simp add: hc_step_eq)

lemma hc_loop_score_inv:
  "hc_score st = scoreMapping (hc_mapping st) cipherNums M \<Longrightarrow>
   hc_score (hc_loop syms cipherNums M st picks)
     = scoreMapping (hc_mapping (hc_loop syms cipherNums M st picks)) cipherNums M"
proof (induction picks arbitrary: st)
  case Nil
  then show ?case by (simp add: hc_loop_def)
next
  case (Cons ij picks)
  from Cons.IH[OF hc_step_score_inv[OF Cons.prems]] show ?case by (simp add: hc_loop_def)
qed

lemma pad_loop_keys:
  "fst ` set (pad_loop m rem rest) = fst ` set m \<union> set rest"
  by (induction m rem rest rule: pad_loop.induct) (auto simp: map_has_def dom_update)

lemma hc_propose_keys: "map fst (hc_propose syms m i j) = map fst m"
proof (cases "map_of m (syms ! i)")
  case None
  then show ?thesis by (simp add: hc_propose_def Let_def)
next
  case a: (Some ma)
  show ?thesis
  proof (cases "map_of m (syms ! j)")
    case None
    then show ?thesis using a by (simp add: hc_propose_def Let_def)
  next
    case b: (Some mb)
    have ka: "syms ! i \<in> fst ` set m" and kb: "syms ! j \<in> fst ` set m"
      using a b by (auto dest: map_of_key)
    then have "syms ! j \<in> fst ` set (AList.update (syms ! i) mb m)" by (simp add: dom_update)
    then show ?thesis using a b ka
      by (simp add: hc_propose_def Let_def keys_update_present)
  qed
qed

lemma hc_step_keys: "map fst (hc_mapping (hc_step syms cipherNums M st ij)) = map fst (hc_mapping st)"
  by (cases ij) (simp add: hc_step_eq hc_propose_keys)

lemma hc_loop_keys: "map fst (hc_mapping (hc_loop syms cipherNums M st picks)) = map fst (hc_mapping st)"
proof (induction picks arbitrary: st)
  case Nil
  show ?case by (simp add: hc_loop_def)
next
  case (Cons ij picks)
  from Cons[of "hc_step syms cipherNums M st ij"] show ?case
    by (simp add: hc_loop_def hc_step_keys)
qed

lemma hc_propose_map_of:
  assumes "map_of m (syms ! i) = Some ma" "map_of m (syms ! j) = Some mb"
  shows "map_of (hc_propose syms m i j) = (map_of m)(syms ! i \<mapsto> mb, syms ! j \<mapsto> ma)"
  using assms by (simp add: hc_propose_def Let_def update_conv')

lemma pad_mapping_keys: "fst ` set (pad_mapping m syms) = fst ` set m \<union> set syms"
  by (simp add: pad_mapping_def Let_def pad_loop_keys)

lemma hillClimb_unfold:
  "expectedCipherSymbols rsaPub = Inr syms \<Longrightarrow>
   hillClimb mapping cipherNums M rsaPub picks =
     Inr (hc_loop syms cipherNums M
            \<lparr>hc_mapping = pad_mapping mapping syms,
             hc_score = scoreMapping (pad_mapping mapping syms) cipherNums M\<rparr> picks)"
  by (simp add: hillClimb_def Let_def)

lemma hillClimb_example:
  "hillClimb [(0, CHR ''A''), (1, CHR ''B'')] [Some 0, Some 1]
      (\<lambda>a b. if a = CHR ''B'' \<and> b = CHR ''A'' then 1 else 0)
      \<lparr>key_p = 101, key_q = 113, key_N = 11413, key_e = 17, key_d = 3953, key_phi = 11200\<rparr>
      [(0, 1)]
   = Inr \<lparr>hc_mapping =
            [(0, CHR ''B''), (1, CHR ''A''), (5529, CHR '' ''), (2068, CHR ''Z''),
             (5827, CHR ''Y''), (10659, CHR ''X''), (9559, CHR ''W''), (11304, CHR ''V''),
             (9997, CHR ''U''), (8162, CHR ''T''), (8292, CHR ''S''), (10997, CHR ''R''),
             (9521, CHR ''Q''), (10581, CHR ''P''), (2228, CHR ''O''), (4309, CHR ''N''),
             (254, CHR ''M''), (10215, CHR ''L''), (696, CHR ''K''), (10875, CHR ''J''),
             (447, CHR ''I''), (2848, CHR ''H''), (5362, CHR ''G''), (3176, CHR ''F''),
             (4853, CHR ''E''), (9279, CHR ''D''), (10724, CHR ''C'')],
          hc_score = 1\<rparr>"
  unfolding hillClimb_def program_symbols by code_simp

text \<open>
  Claim C2. Across the rounds of \<^verbatim>\<open>hillClimb\<close> the best score never decreases: the
  score after any number of rounds is at most the score after more rounds. A round
  with the indices \<open>i\<close> and \<open>j\<close> proposes the mapping with the letters of the symbols
  \<open>syms ! i\<close> and \<open>syms ! j\<close> exchanged, keeps it together with its score exactly when
  that score is strictly greater than the best so far, and otherwise leaves mapping
  and score as they were (a round with \<open>i = j\<close>, which the code skips, proposes the
  mapping itself and so changes nothing). The returned score is the score of the
  final mapping.
\<close>

theorem hillClimb_score_monotone:
  assumes "expectedCipherSymbols rsaPub = Inr syms"
  shows "\<exists>st1 st2.
      hillClimb mapping cipherNums M rsaPub ps = Inr st1
    \<and> hillClimb mapping cipherNums M rsaPub (ps @ qs) = Inr st2
    \<and> hc_score st1 \<le> hc_score st2
    \<and> hc_score st2 = scoreMapping (hc_mapping st2) cipherNums M
    \<and> (\<forall>i j. hillClimb mapping cipherNums M rsaPub (ps @ [(i, j)]) =
          Inr (if scoreMapping (hc_propose syms (hc_mapping st1) i j) cipherNums M
                    > hc_score st1
               then \<lparr>hc_mapping = hc_propose syms (hc_mapping st1) i j,
                     hc_score = scoreMapping (hc_propose syms (hc_mapping st1) i j) cipherNums M\<rparr>
               else st1))
    \<and> (\<forall>i<length syms. \<forall>j<length syms. \<exists>ma mb.
          map_of (hc_mapping st1) (syms ! i) = Some ma
        \<and> map_of (hc_mapping st1) (syms ! j) = Some mb
        \<and> map_of (hc_propose syms (hc_mapping st1) i j)
            = (map_of (hc_mapping st1))(syms ! i \<mapsto> mb, syms ! j \<mapsto> ma))"
proof -
  define st0 where "st0 = \<lparr>hc_mapping = pad_mapping mapping syms,
      hc_score = scoreMapping (pad_mapping mapping syms) cipherNums M\<rparr>"
  define st1 where "st1 = hc_loop syms cipherNums M st0 ps"
  define st2 where "st2 = hc_loop syms cipherNums M st0 (ps @ qs)"
  have h1: "hillClimb mapping cipherNums M rsaPub ps = Inr st1"
    and h2: "hillClimb mapping cipherNums M rsaPub (ps @ qs) = Inr st2"
    using hillClimb_unfold[OF assms] by (simp_all add: st0_def st1_def st2_def)
  have s0: "hc_score st0 = scoreMapping (hc_mapping st0) cipherNums M" by (simp add: st0_def)
  have st2': "st2 = hc_loop syms cipherNums M st1 qs"
    by (simp add: st2_def st1_def hc_loop_append)
  have mono: "hc_score st1 \<le> hc_score st2"
    unfolding st2' by (rule hc_loop_score_mono)
  have fin: "hc_score st2 = scoreMapping (hc_mapping st2) cipherNums M"
    unfolding st2_def by (rule hc_loop_score_inv[OF s0])
  have step: "hillClimb mapping cipherNums M rsaPub (ps @ [(i, j)]) =
          Inr (if scoreMapping (hc_propose syms (hc_mapping st1) i j) cipherNums M
                    > hc_score st1
               then \<lparr>hc_mapping = hc_propose syms (hc_mapping st1) i j,
                     hc_score = scoreMapping (hc_propose syms (hc_mapping st1) i j) cipherNums M\<rparr>
               else st1)" for i j
  proof -
    have "hc_loop syms cipherNums M st0 (ps @ [(i, j)]) = hc_step syms cipherNums M st1 (i, j)"
      by (simp add: hc_loop_def st1_def)
    moreover have "hc_score st1 = scoreMapping (hc_mapping st1) cipherNums M"
      unfolding st1_def by (rule hc_loop_score_inv[OF s0])
    ultimately have "hc_loop syms cipherNums M st0 (ps @ [(i, j)]) =
        (if scoreMapping (hc_propose syms (hc_mapping st1) i j) cipherNums M > hc_score st1
         then \<lparr>hc_mapping = hc_propose syms (hc_mapping st1) i j,
               hc_score = scoreMapping (hc_propose syms (hc_mapping st1) i j) cipherNums M\<rparr>
         else st1)"
      by (cases "i = j") (simp_all add: hc_step_eq hc_propose_same)
    then show ?thesis
      using hillClimb_unfold[OF assms, of mapping cipherNums M "ps @ [(i, j)]"]
      by (simp only: st0_def[symmetric])
  qed
  have keys: "set syms \<subseteq> fst ` set (hc_mapping st1)"
  proof -
    have "map fst (hc_mapping st1) = map fst (pad_mapping mapping syms)"
      by (simp add: st1_def hc_loop_keys st0_def)
    then have "fst ` set (hc_mapping st1) = fst ` set (pad_mapping mapping syms)"
      by (metis set_map)
    then show ?thesis by (simp add: pad_mapping_keys)
  qed
  have swap: "\<exists>ma mb.
          map_of (hc_mapping st1) (syms ! i) = Some ma
        \<and> map_of (hc_mapping st1) (syms ! j) = Some mb
        \<and> map_of (hc_propose syms (hc_mapping st1) i j)
            = (map_of (hc_mapping st1))(syms ! i \<mapsto> mb, syms ! j \<mapsto> ma)"
    if "i < length syms" "j < length syms" for i j
  proof -
    have "syms ! i \<in> fst ` set (hc_mapping st1)" "syms ! j \<in> fst ` set (hc_mapping st1)"
      using that keys by auto
    then obtain ma mb where m: "map_of (hc_mapping st1) (syms ! i) = Some ma"
      "map_of (hc_mapping st1) (syms ! j) = Some mb"
      by (metis map_of_eq_None_iff not_Some_eq)
    from hc_propose_map_of[OF m] m show ?thesis by blast
  qed
  show ?thesis using h1 h2 mono fin step swap by blast
qed

theorem hillClimb_score_monotone_witness:
  "expectedCipherSymbols
     \<lparr>key_p = 101, key_q = 113, key_N = 11413, key_e = 17, key_d = 3953, key_phi = 11200\<rparr> =
   Inr [0, 1, 5529, 2068, 5827, 10659, 9559, 11304, 9997, 8162, 8292, 10997, 9521, 10581, 2228,
        4309, 254, 10215, 696, 10875, 447, 2848, 5362, 3176, 4853, 9279, 10724]
   \<and> (\<exists>st1 st2.
        hillClimb [(0, CHR ''A''), (1, CHR ''B'')] [Some 0, Some 1]
          (\<lambda>a b. if a = CHR ''B'' \<and> b = CHR ''A'' then 1 else 0)
          \<lparr>key_p = 101, key_q = 113, key_N = 11413, key_e = 17, key_d = 3953, key_phi = 11200\<rparr>
          [] = Inr st1
      \<and> hillClimb [(0, CHR ''A''), (1, CHR ''B'')] [Some 0, Some 1]
          (\<lambda>a b. if a = CHR ''B'' \<and> b = CHR ''A'' then 1 else 0)
          \<lparr>key_p = 101, key_q = 113, key_N = 11413, key_e = 17, key_d = 3953, key_phi = 11200\<rparr>
          [(0, 1)] = Inr st2
      \<and> hc_score st1 \<le> hc_score st2 \<and> hc_score st2 = 1
      \<and> hc_score st2 = scoreMapping (hc_mapping st2) [Some 0, Some 1]
          (\<lambda>a b. if a = CHR ''B'' \<and> b = CHR ''A'' then 1 else 0))"
proof -
  from hillClimb_score_monotone[OF program_symbols, of "[(0, CHR ''A''), (1, CHR ''B'')]"
      "[Some 0, Some 1]" "\<lambda>a b. if a = CHR ''B'' \<and> b = CHR ''A'' then 1 else 0" "[]" "[(0, 1)]"]
  obtain st1 st2 where
    a: "hillClimb [(0, CHR ''A''), (1, CHR ''B'')] [Some 0, Some 1]
          (\<lambda>a b. if a = CHR ''B'' \<and> b = CHR ''A'' then 1 else 0)
          \<lparr>key_p = 101, key_q = 113, key_N = 11413, key_e = 17, key_d = 3953, key_phi = 11200\<rparr>
          [] = Inr st1"
    and b: "hillClimb [(0, CHR ''A''), (1, CHR ''B'')] [Some 0, Some 1]
          (\<lambda>a b. if a = CHR ''B'' \<and> b = CHR ''A'' then 1 else 0)
          \<lparr>key_p = 101, key_q = 113, key_N = 11413, key_e = 17, key_d = 3953, key_phi = 11200\<rparr>
          ([] @ [(0, 1)]) = Inr st2"
    and c: "hc_score st1 \<le> hc_score st2"
    and d: "hc_score st2 = scoreMapping (hc_mapping st2) [Some 0, Some 1]
          (\<lambda>a b. if a = CHR ''B'' \<and> b = CHR ''A'' then 1 else 0)"
    by blast
  have e: "hc_score st2 = 1" using b hillClimb_example by simp
  show ?thesis using program_symbols a b c d e by auto
qed

section \<open>Bijectivity of the candidate mapping\<close>

lemma pad_loop_inv:
  assumes "distinct (map fst m)" "distinct (map snd m)" "distinct rem"
    "set rem \<inter> set (map snd m) = {}" "distinct rest"
    "card (set rest - set (map fst m)) \<le> length rem"
  shows "distinct (map fst (pad_loop m rem rest))
       \<and> distinct (map snd (pad_loop m rem rest))
       \<and> set (map snd (pad_loop m rem rest)) \<subseteq> set (map snd m) \<union> set rem
       \<and> length (pad_loop m rem rest) = length m + card (set rest - set (map fst m))
       \<and> (\<forall>k\<in>set (map fst m). map_of (pad_loop m rem rest) k = map_of m k)"
  using assms
proof (induction rest arbitrary: m rem)
  case Nil
  then show ?case by simp
next
  case (Cons s rest)
  show ?case
  proof (cases "map_has m s")
    case True
    then have "set (s # rest) - set (map fst m) = set rest - set (map fst m)"
      by (auto simp: map_has_def)
    then show ?thesis using True Cons.IH[of m rem] Cons.prems by simp
  next
    case False
    then have sk: "s \<notin> set (map fst m)" by (simp add: map_has_def)
    have sr: "s \<notin> set rest" using Cons.prems(5) by simp
    have eq: "set (s # rest) - set (map fst m) = insert s (set rest - set (map fst m))"
      using sk by auto
    have c1: "card (set (s # rest) - set (map fst m)) = Suc (card (set rest - set (map fst m)))"
      unfolding eq using sr by simp
    then have ne: "rem \<noteq> []" using Cons.prems(6) by auto
    define m1 where "m1 = AList.update s (last rem) m"
    have m1: "m1 = m @ [(s, last rem)]"
      unfolding m1_def using sk by (intro update_fresh) simp
    have lr: "last rem \<in> set rem" using ne by simp
    then have lv: "last rem \<notin> set (map snd m)" using Cons.prems(4) by auto
    have rem_eq: "rem = butlast rem @ [last rem]" using ne by simp
    have db: "distinct (butlast rem)" using Cons.prems(3) by (rule distinct_butlast)
    have lb: "last rem \<notin> set (butlast rem)"
      using Cons.prems(3) rem_eq by (metis distinct_append distinct.simps(2) disjoint_iff list.set_intros(1) not_distinct_conv_prefix append_Nil2)
    have sb: "set rem = insert (last rem) (set (butlast rem))"
      using rem_eq by (metis Un_insert_right append_Nil2 list.simps(15) set_append)
    have p1: "distinct (map fst m1)" using Cons.prems(1) sk by (simp add: m1)
    have p2: "distinct (map snd m1)" using Cons.prems(2) lv by (simp add: m1)
    have p4: "set (butlast rem) \<inter> set (map snd m1) = {}"
      using Cons.prems(4) lb sb by (auto simp: m1)
    have p5: "distinct rest" using Cons.prems(5) by simp
    have k1: "set rest - set (map fst m1) = set rest - set (map fst m)"
      using sr by (auto simp: m1)
    have p6: "card (set rest - set (map fst m1)) \<le> length (butlast rem)"
      unfolding k1 using Cons.prems(6) c1 by simp
    note ih = Cons.IH[OF p1 p2 db p4 p5 p6]
    have unf: "pad_loop m rem (s # rest) = pad_loop m1 (butlast rem) rest"
      using False ne by (simp add: m1_def)
    have agree: "\<forall>k\<in>set (map fst m). map_of (pad_loop m1 (butlast rem) rest) k = map_of m k"
    proof
      fix k assume k: "k \<in> set (map fst m)"
      then have "k \<in> set (map fst m1)" by (simp add: m1)
      then have "map_of (pad_loop m1 (butlast rem) rest) k = map_of m1 k" using ih by blast
      also have "\<dots> = map_of m k" using k sk by (auto simp: m1_def update_conv')
      finally show "map_of (pad_loop m1 (butlast rem) rest) k = map_of m k" .
    qed
    have vals: "set (map snd (pad_loop m1 (butlast rem) rest)) \<subseteq> set (map snd m) \<union> set rem"
      using ih sb by (auto simp: m1)
    have "length (pad_loop m1 (butlast rem) rest)
        = length m1 + card (set rest - set (map fst m))"
      using ih unfolding k1 by blast
    then have len: "length (pad_loop m1 (butlast rem) rest)
        = length m + card (set (s # rest) - set (map fst m))"
      unfolding c1 by (simp add: m1)
    show ?thesis unfolding unf using ih agree vals len by blast
  qed
qed

lemma pad_mapping_bijection:
  assumes "distinct syms" "length syms = length ALPHABET"
    and "distinct (map fst m)" "set (map fst m) \<subseteq> set syms"
    and "distinct (map snd m)" "set (map snd m) \<subseteq> set ALPHABET"
  shows "bijection_onto_alphabet (pad_mapping m syms) syms"
    and "\<forall>k\<in>set (map fst m). map_of (pad_mapping m syms) k = map_of m k"
proof -
  define rem where "rem = filter (\<lambda>c. c \<notin> set (map snd m)) ALPHABET"
  define m' where "m' = pad_loop m rem syms"
  have pm: "pad_mapping m syms = m'" by (simp add: pad_mapping_def Let_def rem_def m'_def)
  have dr: "distinct rem" by (simp add: rem_def ALPHABET_distinct)
  have sr: "set rem = set ALPHABET - set (map snd m)" by (auto simp: rem_def)
  have dis: "set rem \<inter> set (map snd m) = {}" using sr by auto
  have cs: "card (set syms) = 27" using assms(1,2) by (simp add: distinct_card length_ALPHABET)
  have ck: "card (set (map fst m)) = length m" using assms(3) by (metis distinct_card length_map)
  have cv: "card (set (map snd m)) = length m" using assms(5) by (metis distinct_card length_map)
  have cA: "card (set ALPHABET) = 27" by (simp add: distinct_card[OF ALPHABET_distinct] length_ALPHABET)
  have c1: "card (set syms - set (map fst m)) = 27 - length m"
    using assms(4) cs ck by (simp add: card_Diff_subset)
  have "length rem = card (set ALPHABET - set (map snd m))"
    using dr sr by (metis distinct_card)
  also have "\<dots> = 27 - length m" using assms(6) cA cv by (simp add: card_Diff_subset)
  finally have lrem: "length rem = 27 - length m" .
  have lm: "length m \<le> 27"
    using card_mono[of "set syms" "set (map fst m)"] assms(4) cs ck by simp
  have c2: "card (set syms - set (map fst m)) \<le> length rem" using c1 lrem by simp
  note inv = pad_loop_inv[OF assms(3) assms(5) dr dis assms(1) c2]
  have k: "set (map fst m') = set syms"
    using pad_loop_keys[of m rem syms] assms(4) by (auto simp: m'_def)
  have dk: "distinct (map fst m')" and dv: "distinct (map snd m')"
    using inv by (simp_all add: m'_def)
  have sub: "set (map snd m') \<subseteq> set ALPHABET"
    using inv assms(6) sr unfolding m'_def by blast
  have "length m' = 27" using inv c1 lm unfolding m'_def by simp
  then have "card (set (map snd m')) = card (set ALPHABET)"
    using dv cA by (metis distinct_card length_map)
  then have v: "set (map snd m') = set ALPHABET"
    using sub by (intro card_subset_eq) simp_all
  show "bijection_onto_alphabet (pad_mapping m syms) syms"
    unfolding pm bijection_onto_alphabet_def using dk k dv v by simp
  show "\<forall>k\<in>set (map fst m). map_of (pad_mapping m syms) k = map_of m k"
    unfolding pm m'_def using inv by blast
qed

lemma update_as_map:
  "distinct (map fst al) \<Longrightarrow> k \<in> fst ` set al \<Longrightarrow>
   AList.update k v al = map (\<lambda>p. if fst p = k then (k, v) else p) al"
proof (induction al)
  case Nil
  then show ?case by simp
next
  case (Cons p al)
  show ?case
  proof (cases "fst p = k")
    case True
    then have "k \<notin> fst ` set al" using Cons.prems(1) by auto
    then have "map (\<lambda>p. if fst p = k then (k, v) else p) al = al"
      by (intro map_idI) auto
    then show ?thesis using True by simp
  next
    case False
    then show ?thesis using Cons by auto
  qed
qed

lemma swap_bijection:
  assumes "bijection_onto_alphabet m syms"
  shows "bijection_onto_alphabet (hc_propose syms m i j) syms"
proof (cases "map_of m (syms ! i)")
  case None
  then show ?thesis using assms by (simp add: hc_propose_def Let_def)
next
  case a: (Some ma)
  show ?thesis
  proof (cases "map_of m (syms ! j)")
    case None
    then show ?thesis using assms a by (simp add: hc_propose_def Let_def)
  next
    case b: (Some mb)
    define ka where "ka = syms ! i"
    define kb where "kb = syms ! j"
    have dk: "distinct (map fst m)" and dv: "distinct (map snd m)"
      and sv: "set (map snd m) = set ALPHABET" and sk: "set (map fst m) = set syms"
      using assms by (simp_all add: bijection_onto_alphabet_def)
    have ina: "(ka, ma) \<in> set m" and inb: "(kb, mb) \<in> set m"
      using a b by (auto simp: ka_def kb_def dest: map_of_SomeD)
    have keya: "ka \<in> fst ` set m" and keyb: "kb \<in> fst ` set m"
      using ina inb by force+
    show ?thesis
    proof (cases "ka = kb")
      case True
      then have "ma = mb" using a b by (simp add: ka_def kb_def)
      then have "hc_propose syms m i j = m"
        using a b True by (simp add: hc_propose_def Let_def ka_def kb_def update_triv)
      then show ?thesis using assms by simp
    next
      case False
      define sw where "sw = (\<lambda>v. if v = ma then mb else if v = mb then ma else v)"
      have inj: "inj sw" by (auto simp: inj_on_def sw_def)
      have va: "v = ma" if "(ka, v) \<in> set m" for v
        using that a dk by (simp add: ka_def map_of_is_SomeI[OF dk])
      have valb: "v = mb" if "(kb, v) \<in> set m" for v
        using that b dk by (simp add: kb_def map_of_is_SomeI[OF dk])
      have injv: "inj_on snd (set m)" using dv by (simp add: distinct_map)
      have key_of: "k = ka" if "(k, ma) \<in> set m" for k
        using inj_onD[OF injv _ that ina] by simp
      have key_of_b: "k = kb" if "(k, mb) \<in> set m" for k
        using inj_onD[OF injv _ that inb] by simp
      have u1: "AList.update ka mb m = map (\<lambda>p. if fst p = ka then (ka, mb) else p) m"
        by (rule update_as_map[OF dk keya])
      have dk1: "distinct (map fst (AList.update ka mb m))" using dk by (simp add: distinct_update)
      have keyb1: "kb \<in> fst ` set (AList.update ka mb m)" using keyb by (simp add: dom_update)
      have pr: "hc_propose syms m i j =
          map (\<lambda>p. if fst p = kb then (kb, ma) else p) (map (\<lambda>p. if fst p = ka then (ka, mb) else p) m)"
        using a b update_as_map[OF dk1 keyb1, of ma]
        by (simp add: hc_propose_def Let_def ka_def[symmetric] kb_def[symmetric] u1)
      have "map snd (hc_propose syms m i j) = map (\<lambda>p. sw (snd p)) m"
        unfolding pr map_map
      proof (rule map_cong[OF refl])
        fix p assume p: "p \<in> set m"
        obtain k v where kv: "p = (k, v)" by (cases p)
        show "(snd \<circ> ((\<lambda>p. if fst p = kb then (kb, ma) else p) \<circ>
                 (\<lambda>p. if fst p = ka then (ka, mb) else p))) p = sw (snd p)"
        proof (cases "k = ka")
          case True
          then have "v = ma" using p kv va by simp
          then show ?thesis using True False kv by (simp add: sw_def)
        next
          case nka: False
          show ?thesis
          proof (cases "k = kb")
            case True
            then have "v = mb" using p kv valb by simp
            then show ?thesis using True nka kv by (simp add: sw_def)
          next
            case nkb: False
            have "v \<noteq> ma" using key_of[of k] p kv nka by auto
            moreover have "v \<noteq> mb" using key_of_b[of k] p kv nkb by auto
            ultimately show ?thesis using nka nkb kv by (simp add: sw_def)
          qed
        qed
      qed
      then have vals: "map snd (hc_propose syms m i j) = map sw (map snd m)" by simp
      have d': "distinct (map snd (hc_propose syms m i j))"
        unfolding vals using dv inj by (simp add: distinct_map inj_on_def)
      have "ma \<in> set (map snd m)" "mb \<in> set (map snd m)" using ina inb by force+
      then have "sw ` set (map snd m) = set (map snd m)"
        by (auto simp: sw_def image_iff)
      moreover have "set (map sw (map snd m)) = sw ` set (map snd m)" by (rule set_map)
      ultimately have s': "set (map snd (hc_propose syms m i j)) = set ALPHABET"
        unfolding vals using sv by (simp only:)
      show ?thesis
        unfolding bijection_onto_alphabet_def hc_propose_keys using dk sk d' s' by simp
    qed
  qed
qed

lemma hc_step_bijection:
  "bijection_onto_alphabet (hc_mapping st) syms \<Longrightarrow>
   bijection_onto_alphabet (hc_mapping (hc_step syms cipherNums M st ij)) syms"
  by (cases ij) (simp add: hc_step_eq swap_bijection)

lemma hc_loop_bijection:
  "bijection_onto_alphabet (hc_mapping st) syms \<Longrightarrow>
   bijection_onto_alphabet (hc_mapping (hc_loop syms cipherNums M st picks)) syms"
proof (induction picks arbitrary: st)
  case Nil
  then show ?case by (simp add: hc_loop_def)
next
  case (Cons ij picks)
  from Cons.IH[OF hc_step_bijection[OF Cons.prems]] show ?case by (simp add: hc_loop_def)
qed

text \<open>
  The seed that \<^verbatim>\<open>main\<close> passes to \<^verbatim>\<open>hillClimb\<close> is the mapping of \<^verbatim>\<open>freqMapping\<close> for the
  counts of the plaintext. When the expected symbols are pairwise distinct it is a
  bijection already, and the padding finds nothing to add.
\<close>

lemma index_of_Some: "index_of as a \<noteq> None \<longleftrightarrow> a \<in> set as"
  by (induction as) auto

lemma countsObject_keys:
  "distinct (map fst (countsObjectFromString s))
   \<and> set (map fst (countsObjectFromString s)) \<subseteq> set ALPHABET"
proof (induction s rule: rev_induct)
  case Nil
  show ?case by (simp add: countsObjectFromString_def)
next
  case (snoc ch s)
  have step: "countsObjectFromString (s @ [ch]) =
      (if CHAR2INT ch = None then countsObjectFromString s
       else AList.update ch
              ((case map_of (countsObjectFromString s) ch of None \<Rightarrow> 0 | Some k \<Rightarrow> k) + 1)
              (countsObjectFromString s))"
    by (simp add: countsObjectFromString_def)
  show ?case
  proof (cases "CHAR2INT ch = None")
    case True
    then show ?thesis using snoc step by simp
  next
    case False
    then have "ch \<in> set ALPHABET" using index_of_Some[of ALPHABET ch] by (simp add: CHAR2INT_def)
    then show ?thesis using snoc step False by (auto simp: distinct_update dom_update)
  qed
qed

lemma distinct_map_insort_cmp:
  "distinct (map f (insort_cmp cmp a bs)) = (f a \<notin> f ` set bs \<and> distinct (map f bs))"
  by (induction bs) (auto simp: set_insort_cmp)

lemma distinct_map_js_sort: "distinct (map f (js_sort cmp as)) = distinct (map f as)"
proof (induction as)
  case Nil
  show ?case by (simp add: js_sort_def)
next
  case (Cons a as)
  have "js_sort cmp (a # as) = insort_cmp cmp a (js_sort cmp as)" by (simp add: js_sort_def)
  then show ?case using Cons by (simp add: distinct_map_insort_cmp set_js_sort)
qed

lemma freqMapping_bijection:
  assumes ex: "expectedCipherSymbols rsaPub = Inr syms" and ds: "distinct syms"
    and dk: "distinct (map fst plainCounts)" and sk: "set (map fst plainCounts) \<subseteq> set ALPHABET"
    and fm: "freqMapping cipherNums plainCounts rsaPub = Inr m"
  shows "bijection_onto_alphabet m syms"
proof -
  define arr where
    "arr = js_sort count_cmp
       (map (\<lambda>s. (s, case map_of (countsFromArray cipherNums) s of None \<Rightarrow> 0 | Some k \<Rightarrow> k)) syms)"
  define ks where "ks = map fst arr"
  define pl where "pl = plainList plainCounts"
  have len: "length syms = 27"
    using traverse_length[OF ex[unfolded expectedCipherSymbols_def]] by (simp add: length_ALPHABET)
  have lk: "length ks = 27" by (simp add: ks_def arr_def length_js_sort len)
  have dks: "distinct ks"
    unfolding ks_def arr_def by (simp add: distinct_map_js_sort comp_def ds)
  have sks: "set ks = set syms"
    unfolding ks_def arr_def by (simp add: set_js_sort image_image)
  have dpl: "distinct pl"
    unfolding pl_def plainList_eq
    using dk ALPHABET_distinct by (auto simp: distinct_map_js_sort set_js_sort)
  have spl: "set pl = set ALPHABET"
    unfolding pl_def plainList_eq using sk by (auto simp: set_js_sort)
  have lpl: "length pl = 27"
    using dpl spl ALPHABET_distinct by (metis distinct_card length_ALPHABET)
  have "map (\<lambda>i. (fst (arr ! i), pl ! i)) [0..<length syms]
      = map (\<lambda>i. (ks ! i, pl ! i)) [0..<27]"
    unfolding len using lk by (intro map_cong) (simp_all add: ks_def)
  also have "\<dots> = zip ks pl" by (rule tabulate_zip) (simp_all add: lk lpl)
  finally have "m = map_build (zip ks pl)"
    using fm by (simp add: freqMapping_def ex Let_def arr_def pl_def)
  moreover have "map_build (zip ks pl) = zip ks pl"
    by (rule map_build_distinct) (simp add: lk lpl dks)
  ultimately have m: "m = zip ks pl" by simp
  have "map fst m = ks" "map snd m = pl" by (simp_all add: m lk lpl)
  then show ?thesis
    using dks sks dpl spl by (simp add: bijection_onto_alphabet_def)
qed

text \<open>
  Claim C6. Let the expected cipher symbols be pairwise distinct and the seed a mapping
  that gives distinct alphabet letters to some of them. Then the padding of \<^verbatim>\<open>hillClimb\<close>
  keeps the seed's entries and gives an unused letter to every other symbol, so that
  the padded mapping is a bijection from the 27 symbols onto the 27 letters; and after
  any number of rounds the mapping is such a bijection, as is every swap proposed
  from it, kept or reverted.
\<close>

theorem hillClimb_bijection:
  assumes "expectedCipherSymbols rsaPub = Inr syms" "distinct syms"
    and "distinct (map fst mapping)" "set (map fst mapping) \<subseteq> set syms"
    and "distinct (map snd mapping)" "set (map snd mapping) \<subseteq> set ALPHABET"
  shows "\<exists>st. hillClimb mapping cipherNums M rsaPub picks = Inr st
      \<and> bijection_onto_alphabet (pad_mapping mapping syms) syms
      \<and> (\<forall>k\<in>set (map fst mapping). map_of (pad_mapping mapping syms) k = map_of mapping k)
      \<and> bijection_onto_alphabet (hc_mapping st) syms
      \<and> (\<forall>i j. bijection_onto_alphabet (hc_propose syms (hc_mapping st) i j) syms)"
proof -
  have len: "length syms = length ALPHABET"
    using traverse_length[OF assms(1)[unfolded expectedCipherSymbols_def]] by simp
  note pad = pad_mapping_bijection[OF assms(2) len assms(3-6)]
  define st where "st = hc_loop syms cipherNums M
            \<lparr>hc_mapping = pad_mapping mapping syms,
             hc_score = scoreMapping (pad_mapping mapping syms) cipherNums M\<rparr> picks"
  have h: "hillClimb mapping cipherNums M rsaPub picks = Inr st"
    using hillClimb_unfold[OF assms(1)] by (simp add: st_def)
  have b: "bijection_onto_alphabet (hc_mapping st) syms"
    unfolding st_def by (rule hc_loop_bijection) (simp add: pad(1))
  have "bijection_onto_alphabet (hc_propose syms (hc_mapping st) i j) syms" for i j
    by (rule swap_bijection[OF b])
  then show ?thesis using h pad b by blast
qed

theorem hillClimb_bijection_witness:
  "expectedCipherSymbols
     \<lparr>key_p = 101, key_q = 113, key_N = 11413, key_e = 17, key_d = 3953, key_phi = 11200\<rparr> =
   Inr [0, 1, 5529, 2068, 5827, 10659, 9559, 11304, 9997, 8162, 8292, 10997, 9521, 10581, 2228,
        4309, 254, 10215, 696, 10875, 447, 2848, 5362, 3176, 4853, 9279, 10724]
   \<and> distinct [0::int, 1, 5529, 2068, 5827, 10659, 9559, 11304, 9997, 8162, 8292, 10997, 9521,
        10581, 2228, 4309, 254, 10215, 696, 10875, 447, 2848, 5362, 3176, 4853, 9279, 10724]
   \<and> (\<exists>st. hillClimb [(0, CHR ''A''), (1, CHR ''B'')] [Some 0, Some 1]
          (\<lambda>a b. if a = CHR ''B'' \<and> b = CHR ''A'' then 1 else 0)
          \<lparr>key_p = 101, key_q = 113, key_N = 11413, key_e = 17, key_d = 3953, key_phi = 11200\<rparr>
          [(0, 1)] = Inr st
        \<and> bijection_onto_alphabet (hc_mapping st)
            [0, 1, 5529, 2068, 5827, 10659, 9559, 11304, 9997, 8162, 8292, 10997, 9521, 10581,
             2228, 4309, 254, 10215, 696, 10875, 447, 2848, 5362, 3176, 4853, 9279, 10724])"
proof -
  have d: "distinct [0::int, 1, 5529, 2068, 5827, 10659, 9559, 11304, 9997, 8162, 8292, 10997,
        9521, 10581, 2228, 4309, 254, 10215, 696, 10875, 447, 2848, 5362, 3176, 4853, 9279, 10724]"
    by simp
  have s1: "distinct (map fst [(0::int, CHR ''A''), (1, CHR ''B'')])" by simp
  have s2: "set (map fst [(0::int, CHR ''A''), (1, CHR ''B'')])
      \<subseteq> set [0, 1, 5529, 2068, 5827, 10659, 9559, 11304, 9997, 8162, 8292, 10997,
        9521, 10581, 2228, 4309, 254, 10215, 696, 10875, 447, 2848, 5362, 3176, 4853, 9279, 10724]"
    by simp
  have s3: "distinct (map snd [(0::int, CHR ''A''), (1, CHR ''B'')])" by simp
  have s4: "set (map snd [(0::int, CHR ''A''), (1, CHR ''B'')]) \<subseteq> set ALPHABET"
    by (simp add: ALPHABET_def)
  from hillClimb_bijection[OF program_symbols d s1 s2 s3 s4, of "[Some 0, Some 1]"
      "\<lambda>a b. if a = CHR ''B'' \<and> b = CHR ''A'' then 1 else 0" "[(0, 1)]"]
  have "\<exists>st. hillClimb [(0, CHR ''A''), (1, CHR ''B'')] [Some 0, Some 1]
          (\<lambda>a b. if a = CHR ''B'' \<and> b = CHR ''A'' then 1 else 0)
          \<lparr>key_p = 101, key_q = 113, key_N = 11413, key_e = 17, key_d = 3953, key_phi = 11200\<rparr>
          [(0, 1)] = Inr st
        \<and> bijection_onto_alphabet (hc_mapping st)
            [0, 1, 5529, 2068, 5827, 10659, 9559, 11304, 9997, 8162, 8292, 10997, 9521, 10581,
             2228, 4309, 254, 10215, 696, 10875, 447, 2848, 5362, 3176, 4853, 9279, 10724]"
    by blast
  with program_symbols d show ?thesis by blast
qed

section \<open>What hillClimb does to its arguments\<close>

lemma pad_loop_frame: "k \<notin> set rest \<Longrightarrow> map_of (pad_loop m rem rest) k = map_of m k"
  by (induction m rem rest rule: pad_loop.induct) (auto simp: update_conv')

lemma hc_propose_frame:
  "k \<noteq> syms ! i \<Longrightarrow> k \<noteq> syms ! j \<Longrightarrow> map_of (hc_propose syms m i j) k = map_of m k"
  by (auto simp: hc_propose_def Let_def update_conv' split: option.splits)

lemma hc_loop_frame:
  assumes "\<forall>(i, j)\<in>set picks. i < length syms \<and> j < length syms" "k \<notin> set syms"
  shows "map_of (hc_mapping (hc_loop syms cipherNums M st picks)) k = map_of (hc_mapping st) k"
  using assms(1)
proof (induction picks arbitrary: st)
  case Nil
  show ?case by (simp add: hc_loop_def)
next
  case (Cons ij picks)
  obtain i j where ij: "ij = (i, j)" by (cases ij)
  have r: "i < length syms" "j < length syms" using Cons.prems ij by auto
  then have "k \<noteq> syms ! i" "k \<noteq> syms ! j" using assms(2) by auto
  then have "map_of (hc_mapping (hc_step syms cipherNums M st ij)) k = map_of (hc_mapping st) k"
    by (simp add: ij hc_step_eq hc_propose_frame)
  moreover have "map_of (hc_mapping (hc_loop syms cipherNums M (hc_step syms cipherNums M st ij) picks)) k
      = map_of (hc_mapping (hc_step syms cipherNums M st ij)) k"
    using Cons.IH Cons.prems by simp
  ultimately show ?case by (simp add: hc_loop_def)
qed

text \<open>
  Claim C7, amended. \<^verbatim>\<open>hillClimb\<close> returns the score alone and leaves its result in the
  \<^verbatim>\<open>Map\<close> object of its caller, which it changes in place: after the call the object
  holds every key it had and every expected symbol, its entries outside the expected
  symbols are as before, and the returned score is the score of the object as it now
  is. The ciphertext, the bigram model and the key are read only, and the other attack
  functions build their results afresh: in the model they are functions of their
  arguments.
\<close>

theorem hillClimb_effect:
  assumes "expectedCipherSymbols rsaPub = Inr syms"
    and "\<forall>(i, j)\<in>set picks. i < length syms \<and> j < length syms"
  shows "\<exists>st. hillClimb mapping cipherNums M rsaPub picks = Inr st
      \<and> set (map fst (hc_mapping st)) = set (map fst mapping) \<union> set syms
      \<and> (\<forall>k. k \<notin> set syms \<longrightarrow> map_of (hc_mapping st) k = map_of mapping k)
      \<and> hc_score st = scoreMapping (hc_mapping st) cipherNums M"
proof -
  define st0 where "st0 = \<lparr>hc_mapping = pad_mapping mapping syms,
      hc_score = scoreMapping (pad_mapping mapping syms) cipherNums M\<rparr>"
  define st where "st = hc_loop syms cipherNums M st0 picks"
  have h: "hillClimb mapping cipherNums M rsaPub picks = Inr st"
    using hillClimb_unfold[OF assms(1)] by (simp add: st_def st0_def)
  have "map fst (hc_mapping st) = map fst (pad_mapping mapping syms)"
    by (simp add: st_def hc_loop_keys st0_def)
  then have "set (map fst (hc_mapping st)) = fst ` set (pad_mapping mapping syms)"
    by (metis set_map)
  then have keys: "set (map fst (hc_mapping st)) = set (map fst mapping) \<union> set syms"
    by (simp add: pad_mapping_keys)
  have frame: "map_of (hc_mapping st) k = map_of mapping k" if "k \<notin> set syms" for k
  proof -
    have "map_of (hc_mapping st) k = map_of (hc_mapping st0) k"
      unfolding st_def by (rule hc_loop_frame[OF assms(2) that])
    also have "\<dots> = map_of mapping k"
      using that by (simp add: st0_def pad_mapping_def Let_def pad_loop_frame)
    finally show ?thesis .
  qed
  have sc: "hc_score st = scoreMapping (hc_mapping st) cipherNums M"
    unfolding st_def by (rule hc_loop_score_inv) (simp add: st0_def)
  show ?thesis using h keys frame sc by blast
qed

theorem hillClimb_effect_witness:
  "expectedCipherSymbols
     \<lparr>key_p = 101, key_q = 113, key_N = 11413, key_e = 17, key_d = 3953, key_phi = 11200\<rparr> =
   Inr [0, 1, 5529, 2068, 5827, 10659, 9559, 11304, 9997, 8162, 8292, 10997, 9521, 10581, 2228,
        4309, 254, 10215, 696, 10875, 447, 2848, 5362, 3176, 4853, 9279, 10724]
   \<and> (\<exists>st. hillClimb [(0, CHR ''A''), (7, CHR ''B'')] [Some 0, Some 1]
          (\<lambda>a b. if a = CHR ''B'' \<and> b = CHR ''A'' then 1 else 0)
          \<lparr>key_p = 101, key_q = 113, key_N = 11413, key_e = 17, key_d = 3953, key_phi = 11200\<rparr>
          [(0, 1)] = Inr st
        \<and> map_of (hc_mapping st) 7 = Some CHR ''B''
        \<and> hc_score st = scoreMapping (hc_mapping st) [Some 0, Some 1]
            (\<lambda>a b. if a = CHR ''B'' \<and> b = CHR ''A'' then 1 else 0))"
proof -
  have r: "\<forall>(i, j)\<in>set [(0::nat, 1::nat)].
      i < length [0::int, 1, 5529, 2068, 5827, 10659, 9559, 11304, 9997, 8162, 8292, 10997,
        9521, 10581, 2228, 4309, 254, 10215, 696, 10875, 447, 2848, 5362, 3176, 4853, 9279, 10724]
      \<and> j < length [0::int, 1, 5529, 2068, 5827, 10659, 9559, 11304, 9997, 8162, 8292, 10997,
        9521, 10581, 2228, 4309, 254, 10215, 696, 10875, 447, 2848, 5362, 3176, 4853, 9279, 10724]"
    by simp
  from hillClimb_effect[OF program_symbols r, of "[(0, CHR ''A''), (7, CHR ''B'')]"
      "[Some 0, Some 1]" "\<lambda>a b. if a = CHR ''B'' \<and> b = CHR ''A'' then 1 else 0"]
  obtain st where
    a: "hillClimb [(0, CHR ''A''), (7, CHR ''B'')] [Some 0, Some 1]
          (\<lambda>a b. if a = CHR ''B'' \<and> b = CHR ''A'' then 1 else 0)
          \<lparr>key_p = 101, key_q = 113, key_N = 11413, key_e = 17, key_d = 3953, key_phi = 11200\<rparr>
          [(0, 1)] = Inr st"
    and b: "\<forall>k. k \<notin> set [0::int, 1, 5529, 2068, 5827, 10659, 9559, 11304, 9997, 8162, 8292, 10997,
        9521, 10581, 2228, 4309, 254, 10215, 696, 10875, 447, 2848, 5362, 3176, 4853, 9279, 10724]
        \<longrightarrow> map_of (hc_mapping st) k = map_of [(0, CHR ''A''), (7, CHR ''B'')] k"
    and c: "hc_score st = scoreMapping (hc_mapping st) [Some 0, Some 1]
            (\<lambda>a b. if a = CHR ''B'' \<and> b = CHR ''A'' then 1 else 0)"
    by blast
  have "map_of (hc_mapping st) 7 = map_of [(0::int, CHR ''A''), (7, CHR ''B'')] 7"
    using b by simp
  then have "map_of (hc_mapping st) 7 = Some CHR ''B''" by simp
  with program_symbols a c show ?thesis by blast
qed

text \<open>
  With the program's key, the seed \<open>0 \<mapsto> A, 1 \<mapsto> B\<close>, the ciphertext \<open>0 1\<close> and a model
  that prefers \<open>BA\<close>, one round with the indices 0 and 1 is accepted. Afterwards the
  caller's map has 27 entries instead of 2 and sends 0 to \<open>B\<close>.
\<close>

theorem hillClimb_mutates_mapping:
  "hillClimb [(0, CHR ''A''), (1, CHR ''B'')] [Some 0, Some 1]
      (\<lambda>a b. if a = CHR ''B'' \<and> b = CHR ''A'' then 1 else 0)
      \<lparr>key_p = 101, key_q = 113, key_N = 11413, key_e = 17, key_d = 3953, key_phi = 11200\<rparr>
      [(0, 1)]
   = Inr \<lparr>hc_mapping =
            [(0, CHR ''B''), (1, CHR ''A''), (5529, CHR '' ''), (2068, CHR ''Z''),
             (5827, CHR ''Y''), (10659, CHR ''X''), (9559, CHR ''W''), (11304, CHR ''V''),
             (9997, CHR ''U''), (8162, CHR ''T''), (8292, CHR ''S''), (10997, CHR ''R''),
             (9521, CHR ''Q''), (10581, CHR ''P''), (2228, CHR ''O''), (4309, CHR ''N''),
             (254, CHR ''M''), (10215, CHR ''L''), (696, CHR ''K''), (10875, CHR ''J''),
             (447, CHR ''I''), (2848, CHR ''H''), (5362, CHR ''G''), (3176, CHR ''F''),
             (4853, CHR ''E''), (9279, CHR ''D''), (10724, CHR ''C'')],
          hc_score = 1\<rparr>
   \<and> map_of [(0::int, CHR ''A''), (1, CHR ''B'')] 0 = Some CHR ''A''
   \<and> map_of [(0::int, CHR ''A''), (1, CHR ''B'')] 5529 = None"
  using hillClimb_example by simp

end
